theory Spec2Isabelle
  imports Complex_Main "HOL-Library.Multiset" "HOL-Library.Word"
begin

section \<open>Time: instants and durations (package time)\<close>

text \<open>
  A \<open>time.Time\<close> is modelled by the instant it denotes, in nanoseconds since the Unix
  epoch. Go's representation (seconds since year 1 in an int64 plus nanoseconds) covers
  far more than an int64 of nanoseconds, so the instant is an unbounded \<open>int\<close>.
  A \<open>time.Duration\<close> is an int64 count of nanoseconds.
\<close>

type_synonym Time = int
type_synonym Duration = int

definition Nanosecond :: Duration where "Nanosecond = 1"
definition Second :: Duration where "Second = 1000000000 * Nanosecond"
definition Minute :: Duration where "Minute = 60 * Second"
definition Hour :: Duration where "Hour = 60 * Minute"

definition minDuration :: Duration where "minDuration = - (2 ^ 63)"
definition maxDuration :: Duration where "maxDuration = 2 ^ 63 - 1"

text \<open>
  \<open>t.Sub(u)\<close>: the duration \<open>t - u\<close>; when it does not fit a Duration the maximum
  (or minimum) duration is returned.
\<close>

definition Sub :: "Time \<Rightarrow> Time \<Rightarrow> Duration" where
  "Sub t u =
     (let d = t - u in
      if d > maxDuration then maxDuration
      else if d < minDuration then minDuration
      else d)"

definition Before :: "Time \<Rightarrow> Time \<Rightarrow> bool" where
  "Before t u = (t < u)"

definition After :: "Time \<Rightarrow> Time \<Rightarrow> bool" where
  "After t u = (t > u)"

text \<open>Go's integer division and remainder truncate towards zero.\<close>

definition go_div :: "int \<Rightarrow> int \<Rightarrow> int" where
  "go_div a b = sgn a * sgn b * (\<bar>a\<bar> div \<bar>b\<bar>)"

definition go_mod :: "int \<Rightarrow> int \<Rightarrow> int" where
  "go_mod a b = sgn a * (\<bar>a\<bar> mod \<bar>b\<bar>)"

text \<open>
  \<open>d.Hours()\<close> is \<open>float64(d / Hour) + float64(d % Hour) / (60*60*1e9)\<close>. The float64
  arithmetic is modelled by exact rational arithmetic; the two agree whenever \<open>d\<close> is a
  whole number of hours (the second summand is then zero and the first is an integer
  below \<open>2^53\<close>), which covers every duration evaluated below.
\<close>

definition Hours :: "Duration \<Rightarrow> rat" where
  "Hours d = of_int (go_div d Hour) + of_int (go_mod d Hour) / (60 * 60 * 1000000000)"

text \<open>The conversion \<open>int(f)\<close> discards the fraction (truncation towards zero).\<close>

definition int_of_float :: "rat \<Rightarrow> int" where
  "int_of_float q = (if q < 0 then - \<lfloor>- q\<rfloor> else \<lfloor>q\<rfloor>)"

section \<open>Freshness (freshness.go)\<close>

text \<open>\<open>type Freshness string\<close> with its three constants.\<close>

type_synonym Freshness = string

definition FreshnessGreen :: Freshness where "FreshnessGreen = ''green''"
definition FreshnessYellow :: Freshness where "FreshnessYellow = ''yellow''"
definition FreshnessRed :: Freshness where "FreshnessRed = ''red''"

definition yellowThreshold :: Duration where "yellowThreshold = 2 * 30 * 24 * Hour"
definition redThreshold :: Duration where "redThreshold = 6 * 30 * 24 * Hour"

definition CalculateFreshness :: "Time \<Rightarrow> Time \<Rightarrow> Freshness" where
  "CalculateFreshness lastUpdated now =
     (let age = Sub now lastUpdated in
      if age > redThreshold then FreshnessRed
      else if age > yellowThreshold then FreshnessYellow
      else FreshnessGreen)"

text \<open>\<open>%d\<close> of \<open>fmt.Sprintf\<close>: decimal digits, with a minus sign for a negative number.\<close>

fun itoa_nat :: "nat \<Rightarrow> string" where
  "itoa_nat n =
     (if n < 10 then [''0123456789'' ! n]
      else itoa_nat (n div 10) @ [''0123456789'' ! (n mod 10)])"

declare itoa_nat.simps [simp del]

definition itoa :: "int \<Rightarrow> string" where
  "itoa n = (if n < 0 then CHR ''-'' # itoa_nat (nat (- n)) else itoa_nat (nat n))"

definition pluralize :: "int \<Rightarrow> string \<Rightarrow> string" where
  "pluralize n unit =
     (if n = 1 then ''1 '' @ unit
      else itoa n @ '' '' @ unit @ ''s'')"

definition Age :: "Time \<Rightarrow> Time \<Rightarrow> string" where
  "Age lastUpdated now =
     (let duration = Sub now lastUpdated;
          days = int_of_float (Hours duration / 24)
      in if days < 1 then ''today''
         else if days = 1 then ''1 day ago''
         else if days < 30 then pluralize days ''day'' @ '' ago''
         else
           let months = go_div days 30
           in if months < 12 then pluralize months ''month'' @ '' ago''
              else
                let years = go_div months 12;
                    remainingMonths = go_mod months 12
                in if remainingMonths = 0 then pluralize years ''year'' @ '' ago''
                   else pluralize years ''year'' @ '', '' @
                        pluralize remainingMonths ''month'' @ '' ago'')"

section \<open>Repositories and the freshness summary (cache.go, patina.go)\<close>

record Repository =
  Name :: string
  FullName :: string
  LastUpdated :: Time
  HTMLURL :: string

record FreshnessSummary =
  Green :: int
  Yellow :: int
  Red :: int
  Total :: int

text \<open>One iteration of the loop of \<open>CalculateSummary\<close>: the \<open>switch\<close> on the freshness.\<close>

definition summary_step :: "Time \<Rightarrow> Repository \<Rightarrow> FreshnessSummary \<Rightarrow> FreshnessSummary" where
  "summary_step now repo summary =
     (let f = CalculateFreshness (LastUpdated repo) now in
      if f = FreshnessGreen then summary\<lparr>Green := Green summary + 1\<rparr>
      else if f = FreshnessYellow then summary\<lparr>Yellow := Yellow summary + 1\<rparr>
      else if f = FreshnessRed then summary\<lparr>Red := Red summary + 1\<rparr>
      else summary)"

definition CalculateSummary :: "Repository list \<Rightarrow> Time \<Rightarrow> FreshnessSummary" where
  "CalculateSummary repos now =
     fold (summary_step now) repos
       \<lparr>Green = 0, Yellow = 0, Red = 0, Total = int (length repos)\<rparr>"

section \<open>Paths (package path/filepath, Unix)\<close>

text \<open>
  \<open>filepath.Clean\<close> works through the elements of a path separated by \<open>/\<close>: an empty
  element and \<open>.\<close> are dropped; \<open>..\<close> removes the element before it when there is one
  that is not itself \<open>..\<close>, is dropped at the root of a rooted path, and is kept at the
  front of a relative path; any other element is kept. The result is rooted when the
  path is, and is \<open>.\<close> when nothing is left of a relative path.
\<close>

fun split_sep :: "string \<Rightarrow> string list" where
  "split_sep [] = [[]]"
| "split_sep (c # cs) =
     (if c = CHR ''/'' then [] # split_sep cs
      else (case split_sep cs of
              [] \<Rightarrow> [[c]]
            | e # es \<Rightarrow> (c # e) # es))"

definition IsRooted :: "string \<Rightarrow> bool" where
  "IsRooted path = (case path of [] \<Rightarrow> False | c # _ \<Rightarrow> c = CHR ''/'')"

definition clean_step :: "bool \<Rightarrow> string list \<Rightarrow> string \<Rightarrow> string list" where
  "clean_step rooted out e =
     (if e = [] \<or> e = ''.'' then out
      else if e = ''..'' then
        (if out \<noteq> [] \<and> last out \<noteq> ''..'' then butlast out
         else if \<not> rooted then out @ [''..'']
         else out)
      else out @ [e])"

definition clean_elems :: "string \<Rightarrow> string list" where
  "clean_elems path = foldl (clean_step (IsRooted path)) [] (split_sep path)"

fun join_sep :: "string list \<Rightarrow> string" where
  "join_sep [] = []"
| "join_sep [e] = e"
| "join_sep (e # es) = e @ ''/'' @ join_sep es"

definition Clean :: "string \<Rightarrow> string" where
  "Clean path =
     (if path = [] then ''.''
      else if IsRooted path then CHR ''/'' # join_sep (clean_elems path)
      else if clean_elems path = [] then ''.''
      else join_sep (clean_elems path))"

text \<open>
  \<open>filepath.Join(dir, name)\<close>: empty leading elements are ignored, the others are joined
  with a separator and the result is cleaned; the empty string when both are empty.
\<close>

definition Join :: "string \<Rightarrow> string \<Rightarrow> string" where
  "Join dir name =
     (if dir \<noteq> [] then Clean (dir @ ''/'' @ name)
      else if name \<noteq> [] then Clean name
      else [])"

text \<open>
  A path lies inside a directory when both are rooted or both relative and the cleaned
  elements of the path are those of the directory followed by at least one more element,
  none of them \<open>..\<close>.
\<close>

definition inside_dir :: "string \<Rightarrow> string \<Rightarrow> bool" where
  "inside_dir dir path =
     (let d = clean_elems dir; p = clean_elems path in
      IsRooted path = IsRooted dir \<and>
      length d < length p \<and> take (length d) p = d \<and>
      ''..'' \<notin> set (drop (length d) p))"

section \<open>Errors\<close>

text \<open>
  The error values of the program: the two sentinel errors of cache.go, the errors of
  package os (\<open>ErrNotExist\<close> is the one \<open>os.IsNotExist\<close> recognises), those of
  encoding/json, and whatever a \<open>GitHubClient\<close> returns.
\<close>

datatype error =
    ErrCacheExpired
  | ErrCacheNotFound
  | ErrNotExist
  | PathError string
  | MarshalerError string
  | UnmarshalError string
  | ClientError string

definition IsNotExist :: "error option \<Rightarrow> bool" where
  "IsNotExist err = (err = Some ErrNotExist)"

section \<open>Cached data and its JSON form (cache.go, package encoding/json)\<close>

record OrganizationCache =
  Organization :: string
  FetchedAt :: Time
  Repositories :: "Repository list"

text \<open>The zero \<open>time.Time\<close> is January 1 of year 1, 00:00 UTC.\<close>

definition zeroTime :: Time where
  "zeroTime = - 62135596800 * Second"

definition zeroOrganizationCache :: OrganizationCache where
  "zeroOrganizationCache = \<lparr>Organization = [], FetchedAt = zeroTime, Repositories = []\<rparr>"

text \<open>
  Strings are byte sequences. \<open>utf8.DecodeRuneInString\<close> accepts at the head of a string
  one well-formed UTF-8 sequence of one to four bytes; \<open>rune_len\<close> is its length, and
  \<open>None\<close> where the decoder reports \<open>RuneError\<close> with width 1.
\<close>

definition in_range :: "char \<Rightarrow> nat \<Rightarrow> nat \<Rightarrow> bool" where
  "in_range c lo hi = (lo \<le> of_char c \<and> of_char c \<le> (hi::nat))"

text \<open>The accept range of the second byte and the length, by the first byte.\<close>

definition first_byte :: "nat \<Rightarrow> (nat \<times> nat \<times> nat) option" where
  "first_byte b =
     (if 0xC2 \<le> b \<and> b \<le> 0xDF then Some (0x80, 0xBF, 2)
      else if b = 0xE0 then Some (0xA0, 0xBF, 3)
      else if 0xE1 \<le> b \<and> b \<le> 0xEC then Some (0x80, 0xBF, 3)
      else if b = 0xED then Some (0x80, 0x9F, 3)
      else if 0xEE \<le> b \<and> b \<le> 0xEF then Some (0x80, 0xBF, 3)
      else if b = 0xF0 then Some (0x90, 0xBF, 4)
      else if 0xF1 \<le> b \<and> b \<le> 0xF3 then Some (0x80, 0xBF, 4)
      else if b = 0xF4 then Some (0x80, 0x8F, 4)
      else None)"

fun rune_len :: "string \<Rightarrow> nat option" where
  "rune_len [] = None"
| "rune_len (c # cs) =
     (if of_char c < (0x80::nat) then Some 1
      else case first_byte (of_char c) of
             None \<Rightarrow> None
           | Some (lo, hi, n) \<Rightarrow>
               if length cs < n - 1 then None
               else if \<not> in_range (cs ! 0) lo hi then None
               else if n = 2 then Some 2
               else if \<not> in_range (cs ! 1) 0x80 0xBF then None
               else if n = 3 then Some 3
               else if \<not> in_range (cs ! 2) 0x80 0xBF then None
               else Some 4)"

lemma rune_len_bounds:
  assumes "rune_len s = Some n"
  shows "0 < n \<and> n \<le> length s"
  using assms
  by (cases s) (auto simp: first_byte_def Suc_le_eq split: if_splits option.splits)

text \<open>\<open>utf8.ValidString\<close>.\<close>

function ValidString :: "string \<Rightarrow> bool" where
  "ValidString s =
     (if s = [] then True
      else case rune_len s of
             None \<Rightarrow> False
           | Some n \<Rightarrow> ValidString (drop n s))"
  by pat_completeness auto
termination
  by (relation "measure length") (auto dest: rune_len_bounds)

declare ValidString.simps [simp del]

text \<open>
  A string written by \<open>json.Marshal\<close> and read back by \<open>json.Unmarshal\<close>: the encoder
  replaces every byte that does not start a well-formed UTF-8 sequence by the escape
  of U+FFFD, which the decoder reads as the three bytes EF BF BD; everything else is
  escaped and unescaped losslessly.
\<close>

definition RuneError_bytes :: string where
  "RuneError_bytes = [char_of (0xEF::nat), char_of (0xBF::nat), char_of (0xBD::nat)]"

function json_string :: "string \<Rightarrow> string" where
  "json_string s =
     (if s = [] then []
      else case rune_len s of
             None \<Rightarrow> RuneError_bytes @ json_string (drop 1 s)
           | Some n \<Rightarrow> take n s @ json_string (drop n s))"
  by pat_completeness auto
termination
  by (relation "measure length") (auto dest: rune_len_bounds)

declare json_string.simps [simp del]

text \<open>
  \<open>Time.MarshalJSON\<close> writes RFC 3339 with nanoseconds and fails when the year is
  outside 0..9999 (instants are taken in UTC); reading the text back gives the instant.
\<close>

definition json_time_ok :: "Time \<Rightarrow> bool" where
  "json_time_ok t = (- 62167219200 * Second \<le> t \<and> t < 253402300800 * Second)"

definition json_Repository :: "Repository \<Rightarrow> Repository" where
  "json_Repository r =
     \<lparr>Name = json_string (Name r), FullName = json_string (FullName r),
      LastUpdated = LastUpdated r, HTMLURL = json_string (HTMLURL r)\<rparr>"

text \<open>
  The bytes of a file are represented by what \<open>json.Unmarshal\<close> makes of them when
  decoding into a zero \<open>OrganizationCache\<close>: the value it leaves and the error it
  returns, if any.
\<close>

datatype bytes = Bytes (decoded: OrganizationCache) (decode_error: "error option")

definition json_MarshalIndent :: "OrganizationCache \<Rightarrow> error + bytes" where
  "json_MarshalIndent data =
     (if json_time_ok (FetchedAt data) \<and>
         list_all (\<lambda>r. json_time_ok (LastUpdated r)) (Repositories data)
      then Inr (Bytes \<lparr>Organization = json_string (Organization data),
                       FetchedAt = FetchedAt data,
                       Repositories = map json_Repository (Repositories data)\<rparr> None)
      else Inl (MarshalerError (''json: error calling MarshalJSON for type time.Time: '' @
                ''Time.MarshalJSON: year outside of range [0,9999]'')))"

definition json_Unmarshal :: "bytes \<Rightarrow> OrganizationCache \<times> error option" where
  "json_Unmarshal jsonData = (decoded jsonData, decode_error jsonData)"

section \<open>The environment: clock, files, network\<close>

text \<open>
  The state of the world a call runs in. \<open>clock\<close> lists the successive readings of
  \<open>time.Now()\<close> and \<open>ticks\<close> counts the readings made. \<open>files\<close> maps a path to the
  bytes stored there. Whether an operation of package os fails for a reason outside the
  model (permissions, a missing directory, a full disk) is the environment's choice,
  \<open>io_error\<close>; a failed operation leaves the files as they were. \<open>fetches\<close> counts the
  calls of \<open>FetchRepositories\<close>, and \<open>stdout\<close> collects the lines printed.
\<close>

datatype io_op = OpMkdirAll | OpWriteFile | OpReadFile | OpRemove

record World =
  files :: "string \<rightharpoonup> bytes"
  clock :: "nat \<Rightarrow> Time"
  ticks :: nat
  io_error :: "io_op \<Rightarrow> string \<Rightarrow> error option"
  fetches :: nat
  stdout :: "string list"

definition time_Now :: "World \<Rightarrow> Time \<times> World" where
  "time_Now w = (clock w (ticks w), w\<lparr>ticks := Suc (ticks w)\<rparr>)"

definition MkdirAll :: "string \<Rightarrow> World \<Rightarrow> error option \<times> World" where
  "MkdirAll path w = (io_error w OpMkdirAll path, w)"

definition WriteFile :: "string \<Rightarrow> bytes \<Rightarrow> World \<Rightarrow> error option \<times> World" where
  "WriteFile path content w =
     (case io_error w OpWriteFile path of
        Some e \<Rightarrow> (Some e, w)
      | None \<Rightarrow> (None, w\<lparr>files := (files w)(path \<mapsto> content)\<rparr>))"

definition ReadFile :: "string \<Rightarrow> World \<Rightarrow> error + bytes" where
  "ReadFile path w =
     (case io_error w OpReadFile path of
        Some e \<Rightarrow> Inl e
      | None \<Rightarrow> (case files w path of None \<Rightarrow> Inl ErrNotExist | Some content \<Rightarrow> Inr content))"

definition Remove :: "string \<Rightarrow> World \<Rightarrow> error option \<times> World" where
  "Remove path w =
     (case io_error w OpRemove path of
        Some e \<Rightarrow> (Some e, w)
      | None \<Rightarrow> (case files w path of
                   None \<Rightarrow> (Some ErrNotExist, w)
                 | Some _ \<Rightarrow> (None, w\<lparr>files := (files w)(path := None)\<rparr>)))"

text \<open>The text of an error, as \<open>%v\<close> prints it.\<close>

fun Error :: "error \<Rightarrow> string" where
  "Error ErrCacheExpired = ''cache expired''"
| "Error ErrCacheNotFound = ''cache not found''"
| "Error ErrNotExist = ''file does not exist''"
| "Error (PathError s) = s"
| "Error (MarshalerError s) = s"
| "Error (UnmarshalError s) = s"
| "Error (ClientError s) = s"

section \<open>The cache (cache.go)\<close>

definition cacheValidity :: Duration where
  "cacheValidity = 30 * 24 * Hour"

record Cache =
  baseDir :: string

definition cacheFilePath :: "Cache \<Rightarrow> string \<Rightarrow> string" where
  "cacheFilePath c org = Join (baseDir c) (org @ ''.json'')"

definition Save :: "Cache \<Rightarrow> OrganizationCache \<Rightarrow> World \<Rightarrow> error option \<times> World" where
  "Save c data w =
     (case MkdirAll (baseDir c) w of
        (Some err, w1) \<Rightarrow> (Some err, w1)
      | (None, w1) \<Rightarrow>
          (let (now, w2) = time_Now w1;
               data = data\<lparr>FetchedAt := now\<rparr>
           in case json_MarshalIndent data of
                Inl err \<Rightarrow> (Some err, w2)
              | Inr jsonData \<Rightarrow> WriteFile (cacheFilePath c (Organization data)) jsonData w2))"

text \<open>
  \<open>LoadWithTime\<close> returns the pair \<open>(data, err)\<close> of the source: \<open>data\<close> is the zero
  value when the file could not be read, and whatever \<open>json.Unmarshal\<close> left in it
  afterwards.
\<close>

definition LoadWithTime ::
  "Cache \<Rightarrow> string \<Rightarrow> Time \<Rightarrow> World \<Rightarrow> OrganizationCache \<times> error option" where
  "LoadWithTime c org now w =
     (let data = zeroOrganizationCache in
      case ReadFile (cacheFilePath c org) w of
        Inl err \<Rightarrow>
          if IsNotExist (Some err) then (data, Some ErrCacheNotFound)
          else (data, Some err)
      | Inr jsonData \<Rightarrow>
          (case json_Unmarshal jsonData of
             (data, Some err) \<Rightarrow> (data, Some err)
           | (data, None) \<Rightarrow>
               if Sub now (FetchedAt data) > cacheValidity then (data, Some ErrCacheExpired)
               else (data, None)))"

definition Load ::
  "Cache \<Rightarrow> string \<Rightarrow> World \<Rightarrow> (OrganizationCache \<times> error option) \<times> World" where
  "Load c org w = (let (now, w1) = time_Now w in (LoadWithTime c org now w1, w1))"

definition IsValidWithTime :: "Cache \<Rightarrow> string \<Rightarrow> Time \<Rightarrow> World \<Rightarrow> bool" where
  "IsValidWithTime c org now w = (snd (LoadWithTime c org now w) = None)"

definition Clear :: "Cache \<Rightarrow> string \<Rightarrow> World \<Rightarrow> error option \<times> World" where
  "Clear c org w =
     (let (err, w1) = Remove (cacheFilePath c org) w in
      if IsNotExist err then (None, w1) else (err, w1))"

section \<open>The scanner (patina.go)\<close>

text \<open>
  A \<open>GitHubClient\<close> is anything with a method \<open>FetchRepositories\<close>; its answer may
  change from one call to the next, so it is a function of the number of calls made
  before and of the organization.
\<close>

record Scanner =
  client :: "nat \<Rightarrow> string \<Rightarrow> error + Repository list"
  cache :: Cache

definition FetchRepositories ::
  "Scanner \<Rightarrow> string \<Rightarrow> World \<Rightarrow> (error + Repository list) \<times> World" where
  "FetchRepositories s org w = (client s (fetches w) org, w\<lparr>fetches := Suc (fetches w)\<rparr>)"

record ScanOptions =
  Refresh :: bool

record ScanResult =
  Organization' :: string
  Repositories' :: "Repository list"
  FetchedAt' :: Time
  FromCache :: bool

definition Printf :: "string \<Rightarrow> World \<Rightarrow> World" where
  "Printf line w = w\<lparr>stdout := stdout w @ [line]\<rparr>"

text \<open>The second half of \<open>Scan\<close>: fetch fresh data, save it, return it.\<close>

definition Scan_fetch ::
  "Scanner \<Rightarrow> string \<Rightarrow> Time \<Rightarrow> World \<Rightarrow> (error + ScanResult) \<times> World" where
  "Scan_fetch s org now w =
     (case FetchRepositories s org w of
        (Inl err, w1) \<Rightarrow> (Inl err, w1)
      | (Inr repos, w1) \<Rightarrow>
          (let cacheData = \<lparr>Organization = org, FetchedAt = now, Repositories = repos\<rparr>;
               w3 = (case Save (cache s) cacheData w1 of
                       (Some err, w2) \<Rightarrow>
                         Printf (''Warning: failed to save cache: '' @ Error err) w2
                     | (None, w2) \<Rightarrow> w2)
           in (Inr \<lparr>Organization' = org, Repositories' = repos, FetchedAt' = now,
                    FromCache = False\<rparr>, w3)))"

definition Scan ::
  "Scanner \<Rightarrow> string \<Rightarrow> ScanOptions \<Rightarrow> World \<Rightarrow> (error + ScanResult) \<times> World" where
  "Scan s org opts w =
     (let (now, w1) = time_Now w in
      if \<not> Refresh opts then
        (case Load (cache s) org w1 of
           ((cached, None), w2) \<Rightarrow>
             (Inr \<lparr>Organization' = org, Repositories' = Repositories cached,
                   FetchedAt' = FetchedAt cached, FromCache = True\<rparr>, w2)
         | ((cached, Some err), w2) \<Rightarrow> Scan_fetch s org now w2)
      else Scan_fetch s org now w1)"

section \<open>Sorting (package sort: \<open>sort.Slice\<close>, pattern-defeating quicksort)\<close>

text \<open>
  \<open>sort.Slice(x, less)\<close> runs \<open>pdqsort_func\<close> on the whole slice, with the depth limit
  \<open>bits.Len(length)\<close>. The slice is a list that each function takes and returns; an
  index is a natural number. \<open>Less\<close> and \<open>Swap\<close> are the two operations of
  \<open>lessSwap\<close>: the comparison closure reads the elements at two indices of the slice as
  it is at that moment.
\<close>

definition Less :: "('a \<Rightarrow> 'a \<Rightarrow> bool) \<Rightarrow> 'a list \<Rightarrow> nat \<Rightarrow> nat \<Rightarrow> bool" where
  "Less lt data i j = lt (data ! i) (data ! j)"

definition Swap :: "'a list \<Rightarrow> nat \<Rightarrow> nat \<Rightarrow> 'a list" where
  "Swap data i j = data[i := data ! j, j := data ! i]"

subsection \<open>Insertion sort\<close>

function insertionSort_inner ::
  "('a \<Rightarrow> 'a \<Rightarrow> bool) \<Rightarrow> 'a list \<Rightarrow> nat \<Rightarrow> nat \<Rightarrow> 'a list" where
  "insertionSort_inner lt data a j =
     (if j > a \<and> Less lt data j (j - 1)
      then insertionSort_inner lt (Swap data j (j - 1)) a (j - 1)
      else data)"
  by pat_completeness auto
termination
  by (relation "measure (\<lambda>(lt, data, a, j). j)") auto

declare insertionSort_inner.simps [simp del]

function insertionSort_outer ::
  "('a \<Rightarrow> 'a \<Rightarrow> bool) \<Rightarrow> 'a list \<Rightarrow> nat \<Rightarrow> nat \<Rightarrow> nat \<Rightarrow> 'a list" where
  "insertionSort_outer lt data a b i =
     (if i < b
      then insertionSort_outer lt (insertionSort_inner lt data a i) a b (i + 1)
      else data)"
  by pat_completeness auto
termination
  by (relation "measure (\<lambda>(lt, data, a, b, i). b - i)") auto

declare insertionSort_outer.simps [simp del]

definition insertionSort_func ::
  "('a \<Rightarrow> 'a \<Rightarrow> bool) \<Rightarrow> 'a list \<Rightarrow> nat \<Rightarrow> nat \<Rightarrow> 'a list" where
  "insertionSort_func lt data a b = insertionSort_outer lt data a b (a + 1)"

subsection \<open>Heap sort\<close>

text \<open>The loop of \<open>siftDown_func\<close>, from the current \<open>root\<close> (here \<open>rootIdx\<close>).\<close>

function siftDown_loop ::
  "('a \<Rightarrow> 'a \<Rightarrow> bool) \<Rightarrow> 'a list \<Rightarrow> nat \<Rightarrow> nat \<Rightarrow> nat \<Rightarrow> 'a list" where
  "siftDown_loop lt data rootIdx hi first =
     (let child = 2 * rootIdx + 1 in
      if child \<ge> hi then data
      else
        let child = (if child + 1 < hi \<and> Less lt data (first + child) (first + child + 1)
                     then child + 1 else child)
        in if \<not> Less lt data (first + rootIdx) (first + child) then data
           else siftDown_loop lt (Swap data (first + rootIdx) (first + child)) child hi first)"
  by pat_completeness auto
termination
  by (relation "measure (\<lambda>(lt, data, rootIdx, hi, first). hi - rootIdx)") auto

declare siftDown_loop.simps [simp del]

definition siftDown_func ::
  "('a \<Rightarrow> 'a \<Rightarrow> bool) \<Rightarrow> 'a list \<Rightarrow> nat \<Rightarrow> nat \<Rightarrow> nat \<Rightarrow> 'a list" where
  "siftDown_func lt data lo hi first = siftDown_loop lt data lo hi first"

text \<open>
  The two loops of \<open>heapSort_func\<close> count \<open>i\<close> down to 0; the last argument is the
  number of iterations left, \<open>i + 1\<close>.
\<close>

fun heapSort_build ::
  "('a \<Rightarrow> 'a \<Rightarrow> bool) \<Rightarrow> 'a list \<Rightarrow> nat \<Rightarrow> nat \<Rightarrow> nat \<Rightarrow> 'a list" where
  "heapSort_build lt data hi first 0 = data"
| "heapSort_build lt data hi first (Suc i) =
     heapSort_build lt (siftDown_func lt data i hi first) hi first i"

fun heapSort_pop ::
  "('a \<Rightarrow> 'a \<Rightarrow> bool) \<Rightarrow> 'a list \<Rightarrow> nat \<Rightarrow> nat \<Rightarrow> nat \<Rightarrow> 'a list" where
  "heapSort_pop lt data lo first 0 = data"
| "heapSort_pop lt data lo first (Suc i) =
     heapSort_pop lt (siftDown_func lt (Swap data first (first + i)) lo i first) lo first i"

definition heapSort_func ::
  "('a \<Rightarrow> 'a \<Rightarrow> bool) \<Rightarrow> 'a list \<Rightarrow> nat \<Rightarrow> nat \<Rightarrow> 'a list" where
  "heapSort_func lt data a b =
     (let first = a; lo = 0; hi = b - a;
          data = heapSort_build lt data hi first ((hi - 1) div 2 + 1)
      in heapSort_pop lt data lo first hi)"

subsection \<open>Partitioning\<close>

text \<open>
  The two scans of \<open>partition_func\<close>. The right-hand index \<open>j\<close> may end one below
  \<open>i\<close>, so the scans hold \<open>j + 1\<close> (written \<open>j1\<close>): \<open>i <= j\<close> reads \<open>i < j1\<close>.
\<close>

function partition_scan_left ::
  "('a \<Rightarrow> 'a \<Rightarrow> bool) \<Rightarrow> 'a list \<Rightarrow> nat \<Rightarrow> nat \<Rightarrow> nat \<Rightarrow> nat" where
  "partition_scan_left lt data a i j1 =
     (if i < j1 \<and> Less lt data i a then partition_scan_left lt data a (i + 1) j1 else i)"
  by pat_completeness auto
termination
  by (relation "measure (\<lambda>(lt, data, a, i, j1). j1 - i)") auto

declare partition_scan_left.simps [simp del]

function partition_scan_right ::
  "('a \<Rightarrow> 'a \<Rightarrow> bool) \<Rightarrow> 'a list \<Rightarrow> nat \<Rightarrow> nat \<Rightarrow> nat \<Rightarrow> nat" where
  "partition_scan_right lt data a i j1 =
     (if i < j1 \<and> \<not> Less lt data (j1 - 1) a
      then partition_scan_right lt data a i (j1 - 1) else j1)"
  by pat_completeness auto
termination
  by (relation "measure (\<lambda>(lt, data, a, i, j1). j1)") auto

declare partition_scan_right.simps [simp del]

text \<open>The endless \<open>for\<close> loop of \<open>partition_func\<close>; it returns the slice and \<open>j + 1\<close>.\<close>

function partition_loop ::
  "('a \<Rightarrow> 'a \<Rightarrow> bool) \<Rightarrow> 'a list \<Rightarrow> nat \<Rightarrow> nat \<Rightarrow> nat \<Rightarrow> 'a list \<times> nat" where
  "partition_loop lt data a i j1 =
     (let i = partition_scan_left lt data a i j1;
          j1 = partition_scan_right lt data a i j1
      in if i \<ge> j1 then (data, j1)
         else partition_loop lt (Swap data i (j1 - 1)) a (i + 1) (j1 - 1))"
  by pat_completeness auto

lemma partition_scan_left_ge: "i \<le> partition_scan_left lt data a i j1"
  by (induction lt data a i j1 rule: partition_scan_left.induct)
     (subst partition_scan_left.simps, auto)

lemma partition_scan_right_le: "partition_scan_right lt data a i j1 \<le> j1"
  by (induction lt data a i j1 rule: partition_scan_right.induct)
     (subst partition_scan_right.simps, auto)

termination partition_loop
proof (relation "measure (\<lambda>(lt, data, a, i, j1). j1 - i)", goal_cases)
  case 1
  show ?case by simp
next
  case (2 lt data a i j1 i' j1')
  have "i \<le> i'" using 2(1) by (simp add: partition_scan_left_ge)
  moreover have "j1' \<le> j1" using 2(2) by (simp add: partition_scan_right_le)
  ultimately show ?case using 2(3) by auto
qed

declare partition_loop.simps [simp del]

definition partition_func ::
  "('a \<Rightarrow> 'a \<Rightarrow> bool) \<Rightarrow> 'a list \<Rightarrow> nat \<Rightarrow> nat \<Rightarrow> nat \<Rightarrow> 'a list \<times> nat \<times> bool" where
  "partition_func lt data a b pivot =
     (let data = Swap data a pivot;
          i = a + 1; j1 = b;
          i = partition_scan_left lt data a i j1;
          j1 = partition_scan_right lt data a i j1
      in if i \<ge> j1 then (Swap data (j1 - 1) a, j1 - 1, True)
         else
           let data = Swap data i (j1 - 1);
               (data, j1) = partition_loop lt data a (i + 1) (j1 - 1)
           in (Swap data (j1 - 1) a, j1 - 1, False))"

text \<open>\<open>partitionEqual_func\<close>, with the same convention for \<open>j\<close>.\<close>

function partitionEqual_scan_left ::
  "('a \<Rightarrow> 'a \<Rightarrow> bool) \<Rightarrow> 'a list \<Rightarrow> nat \<Rightarrow> nat \<Rightarrow> nat \<Rightarrow> nat" where
  "partitionEqual_scan_left lt data a i j1 =
     (if i < j1 \<and> \<not> Less lt data a i
      then partitionEqual_scan_left lt data a (i + 1) j1 else i)"
  by pat_completeness auto
termination
  by (relation "measure (\<lambda>(lt, data, a, i, j1). j1 - i)") auto

declare partitionEqual_scan_left.simps [simp del]

function partitionEqual_scan_right ::
  "('a \<Rightarrow> 'a \<Rightarrow> bool) \<Rightarrow> 'a list \<Rightarrow> nat \<Rightarrow> nat \<Rightarrow> nat \<Rightarrow> nat" where
  "partitionEqual_scan_right lt data a i j1 =
     (if i < j1 \<and> Less lt data a (j1 - 1)
      then partitionEqual_scan_right lt data a i (j1 - 1) else j1)"
  by pat_completeness auto
termination
  by (relation "measure (\<lambda>(lt, data, a, i, j1). j1)") auto

declare partitionEqual_scan_right.simps [simp del]

function partitionEqual_loop ::
  "('a \<Rightarrow> 'a \<Rightarrow> bool) \<Rightarrow> 'a list \<Rightarrow> nat \<Rightarrow> nat \<Rightarrow> nat \<Rightarrow> 'a list \<times> nat" where
  "partitionEqual_loop lt data a i j1 =
     (let i = partitionEqual_scan_left lt data a i j1;
          j1 = partitionEqual_scan_right lt data a i j1
      in if i \<ge> j1 then (data, i)
         else partitionEqual_loop lt (Swap data i (j1 - 1)) a (i + 1) (j1 - 1))"
  by pat_completeness auto

lemma partitionEqual_scan_left_ge: "i \<le> partitionEqual_scan_left lt data a i j1"
  by (induction lt data a i j1 rule: partitionEqual_scan_left.induct)
     (subst partitionEqual_scan_left.simps, auto)

lemma partitionEqual_scan_right_le: "partitionEqual_scan_right lt data a i j1 \<le> j1"
  by (induction lt data a i j1 rule: partitionEqual_scan_right.induct)
     (subst partitionEqual_scan_right.simps, auto)

termination partitionEqual_loop
proof (relation "measure (\<lambda>(lt, data, a, i, j1). j1 - i)", goal_cases)
  case 1
  show ?case by simp
next
  case (2 lt data a i j1 i' j1')
  have "i \<le> i'" using 2(1) by (simp add: partitionEqual_scan_left_ge)
  moreover have "j1' \<le> j1" using 2(2) by (simp add: partitionEqual_scan_right_le)
  ultimately show ?case using 2(3) by auto
qed

declare partitionEqual_loop.simps [simp del]

definition partitionEqual_func ::
  "('a \<Rightarrow> 'a \<Rightarrow> bool) \<Rightarrow> 'a list \<Rightarrow> nat \<Rightarrow> nat \<Rightarrow> nat \<Rightarrow> 'a list \<times> nat" where
  "partitionEqual_func lt data a b pivot =
     (let data = Swap data a pivot;
          i = a + 1; j1 = b
      in partitionEqual_loop lt data a i j1)"

subsection \<open>Partial insertion sort, pattern breaking, pivot choice\<close>

definition maxSteps :: nat where "maxSteps = 5"
definition shortestShifting :: nat where "shortestShifting = 50"

function partialInsertionSort_advance ::
  "('a \<Rightarrow> 'a \<Rightarrow> bool) \<Rightarrow> 'a list \<Rightarrow> nat \<Rightarrow> nat \<Rightarrow> nat" where
  "partialInsertionSort_advance lt data i b =
     (if i < b \<and> \<not> Less lt data i (i - 1)
      then partialInsertionSort_advance lt data (i + 1) b else i)"
  by pat_completeness auto
termination
  by (relation "measure (\<lambda>(lt, data, i, b). b - i)") auto

declare partialInsertionSort_advance.simps [simp del]

text \<open>Shift the smaller one to the left: \<open>for j := i - 1; j >= 1; j--\<close>.\<close>

function shift_left :: "('a \<Rightarrow> 'a \<Rightarrow> bool) \<Rightarrow> 'a list \<Rightarrow> nat \<Rightarrow> 'a list" where
  "shift_left lt data j =
     (if j \<ge> 1 then
        (if \<not> Less lt data j (j - 1) then data
         else shift_left lt (Swap data j (j - 1)) (j - 1))
      else data)"
  by pat_completeness auto
termination
  by (relation "measure (\<lambda>(lt, data, j). j)") auto

declare shift_left.simps [simp del]

text \<open>Shift the greater one to the right: \<open>for j := i + 1; j < b; j++\<close>.\<close>

function shift_right :: "('a \<Rightarrow> 'a \<Rightarrow> bool) \<Rightarrow> 'a list \<Rightarrow> nat \<Rightarrow> nat \<Rightarrow> 'a list" where
  "shift_right lt data j b =
     (if j < b then
        (if \<not> Less lt data j (j - 1) then data
         else shift_right lt (Swap data j (j - 1)) (j + 1) b)
      else data)"
  by pat_completeness auto
termination
  by (relation "measure (\<lambda>(lt, data, j, b). b - j)") auto

declare shift_right.simps [simp del]

function partialInsertionSort_loop ::
  "('a \<Rightarrow> 'a \<Rightarrow> bool) \<Rightarrow> 'a list \<Rightarrow> nat \<Rightarrow> nat \<Rightarrow> nat \<Rightarrow> nat \<Rightarrow> 'a list \<times> bool" where
  "partialInsertionSort_loop lt data a b i j =
     (if j < maxSteps then
        (let i = partialInsertionSort_advance lt data i b in
         if i = b then (data, True)
         else if b - a < shortestShifting then (data, False)
         else
           let data = Swap data i (i - 1);
               data = (if i - a \<ge> 2 then shift_left lt data (i - 1) else data);
               data = (if b - i \<ge> 2 then shift_right lt data (i + 1) b else data)
           in partialInsertionSort_loop lt data a b i (j + 1))
      else (data, False))"
  by pat_completeness auto
termination
  by (relation "measure (\<lambda>(lt, data, a, b, i, j). maxSteps - j)") auto

declare partialInsertionSort_loop.simps [simp del]

definition partialInsertionSort_func ::
  "('a \<Rightarrow> 'a \<Rightarrow> bool) \<Rightarrow> 'a list \<Rightarrow> nat \<Rightarrow> nat \<Rightarrow> 'a list \<times> bool" where
  "partialInsertionSort_func lt data a b = partialInsertionSort_loop lt data a b (a + 1) 0"

text \<open>\<open>bits.Len\<close>: the number of bits needed to write a number.\<close>

fun bits_Len :: "nat \<Rightarrow> nat" where
  "bits_Len n = (if n = 0 then 0 else Suc (bits_Len (n div 2)))"

declare bits_Len.simps [simp del]

text \<open>The generator \<open>xorshift\<close> on 64 bits.\<close>

definition xorshift_Next :: "64 word \<Rightarrow> 64 word" where
  "xorshift_Next r =
     (let r = xor r (push_bit 13 r);
          r = xor r (drop_bit 7 r);
          r = xor r (push_bit 17 r)
      in r)"

definition nextPowerOfTwo :: "nat \<Rightarrow> 64 word" where
  "nextPowerOfTwo len = push_bit (bits_Len len) 1"

fun breakPatterns_loop ::
  "'a list \<Rightarrow> nat \<Rightarrow> nat \<Rightarrow> 64 word \<Rightarrow> 64 word \<Rightarrow> nat \<Rightarrow> nat \<Rightarrow> nat \<Rightarrow> 'a list" where
  "breakPatterns_loop data a len random modulus idx i 0 = data"
| "breakPatterns_loop data a len random modulus idx i (Suc n) =
     (let random = xorshift_Next random;
          other = unat (and random (modulus - 1));
          other = (if other \<ge> len then other - len else other)
      in breakPatterns_loop (Swap data (idx + i) (a + other)) a len random modulus idx (i + 1) n)"

definition breakPatterns_func :: "'a list \<Rightarrow> nat \<Rightarrow> nat \<Rightarrow> 'a list" where
  "breakPatterns_func data a b =
     (let len = b - a in
      if len \<ge> 8 then
        (let random = word_of_nat len;
             modulus = nextPowerOfTwo len;
             idx = a + (len div 4) * 2 - 1
         in breakPatterns_loop data a len random modulus idx 0 3)
      else data)"

datatype sortedHint = unknownHint | increasingHint | decreasingHint

definition order2_func ::
  "('a \<Rightarrow> 'a \<Rightarrow> bool) \<Rightarrow> 'a list \<Rightarrow> nat \<Rightarrow> nat \<Rightarrow> nat \<Rightarrow> nat \<times> nat \<times> nat" where
  "order2_func lt data a b swaps =
     (if Less lt data b a then (b, a, swaps + 1) else (a, b, swaps))"

definition median_func ::
  "('a \<Rightarrow> 'a \<Rightarrow> bool) \<Rightarrow> 'a list \<Rightarrow> nat \<Rightarrow> nat \<Rightarrow> nat \<Rightarrow> nat \<Rightarrow> nat \<times> nat" where
  "median_func lt data a b c swaps =
     (let (a, b, swaps) = order2_func lt data a b swaps;
          (b, c, swaps) = order2_func lt data b c swaps;
          (a, b, swaps) = order2_func lt data a b swaps
      in (b, swaps))"

definition medianAdjacent_func ::
  "('a \<Rightarrow> 'a \<Rightarrow> bool) \<Rightarrow> 'a list \<Rightarrow> nat \<Rightarrow> nat \<Rightarrow> nat \<times> nat" where
  "medianAdjacent_func lt data a swaps = median_func lt data (a - 1) a (a + 1) swaps"

definition shortestNinther :: nat where "shortestNinther = 50"
definition maxSwaps :: nat where "maxSwaps = 4 * 3"

definition choosePivot_func ::
  "('a \<Rightarrow> 'a \<Rightarrow> bool) \<Rightarrow> 'a list \<Rightarrow> nat \<Rightarrow> nat \<Rightarrow> nat \<times> sortedHint" where
  "choosePivot_func lt data a b =
     (let l = b - a;
          swaps = 0;
          i = a + l div 4 * 1;
          j = a + l div 4 * 2;
          k = a + l div 4 * 3;
          (j, swaps) =
            (if l \<ge> 8 then
               (let (i, j, k, swaps) =
                      (if l \<ge> shortestNinther then
                         (let (i, swaps) = medianAdjacent_func lt data i swaps;
                              (j, swaps) = medianAdjacent_func lt data j swaps;
                              (k, swaps) = medianAdjacent_func lt data k swaps
                          in (i, j, k, swaps))
                       else (i, j, k, swaps))
                in median_func lt data i j k swaps)
             else (j, swaps))
      in if swaps = 0 then (j, increasingHint)
         else if swaps = maxSwaps then (j, decreasingHint)
         else (j, unknownHint))"

function reverseRange_loop :: "'a list \<Rightarrow> nat \<Rightarrow> nat \<Rightarrow> 'a list" where
  "reverseRange_loop data i j1 =
     (if i + 1 < j1 then reverseRange_loop (Swap data i (j1 - 1)) (i + 1) (j1 - 1) else data)"
  by pat_completeness auto
termination
  by (relation "measure (\<lambda>(data, i, j1). j1 - i)") auto

declare reverseRange_loop.simps [simp del]

text \<open>\<open>reverseRange_func\<close>; the loop holds \<open>j + 1\<close> as above, so \<open>i < j\<close> reads \<open>i + 1 < j1\<close>.\<close>

definition reverseRange_func :: "'a list \<Rightarrow> nat \<Rightarrow> nat \<Rightarrow> 'a list" where
  "reverseRange_func data a b = reverseRange_loop data a b"

subsection \<open>The quicksort loop\<close>

definition maxInsertion :: nat where "maxInsertion = 12"


text \<open>Where the partitions put the pivot: the facts the recursion below rests on.\<close>

lemma partition_scan_left_le:
  assumes "i \<le> j1"
  shows "partition_scan_left lt data a i j1 \<le> j1"
  using assms
  by (induction lt data a i j1 rule: partition_scan_left.induct)
     (subst partition_scan_left.simps, auto)

lemma partition_scan_right_ge:
  assumes "i \<le> j1"
  shows "i \<le> partition_scan_right lt data a i j1"
  using assms
  by (induction lt data a i j1 rule: partition_scan_right.induct)
     (subst partition_scan_right.simps, auto)

lemma partition_loop_bounds:
  assumes "partition_loop lt data a i j1 = (data', r)" and "i \<le> j1 + 1"
  shows "i \<le> r + 1 \<and> r \<le> j1"
  using assms
proof (induction lt data a i j1 arbitrary: data' r rule: partition_loop.induct)
  case (1 lt data a i j1)
  define i' where "i' = partition_scan_left lt data a i j1"
  define j1' where "j1' = partition_scan_right lt data a i' j1"
  have i': "i \<le> i'" and j1': "j1' \<le> j1"
    by (simp_all add: i'_def j1'_def partition_scan_left_ge partition_scan_right_le)
  show ?case
  proof (cases "i' \<ge> j1'")
    case True
    then have r: "r = j1'"
      using "1.prems"(1) by (subst (asm) partition_loop.simps) (auto simp: i'_def j1'_def Let_def)
    show ?thesis
    proof (cases "i \<le> j1")
      case True
      then have "i' \<le> j1" by (simp add: i'_def partition_scan_left_le)
      then have "i' \<le> j1'" by (simp add: j1'_def partition_scan_right_ge)
      with i' j1' r show ?thesis by simp
    next
      case False
      then have "i' = i" "j1' = j1"
        by (simp_all add: i'_def j1'_def partition_scan_left.simps partition_scan_right.simps)
      with r "1.prems"(2) show ?thesis by simp
    qed
  next
    case False
    then have eq: "partition_loop lt (Swap data i' (j1' - 1)) a (i' + 1) (j1' - 1) = (data', r)"
      using "1.prems"(1) by (subst (asm) partition_loop.simps) (simp add: i'_def j1'_def Let_def)
    have "i' + 1 \<le> r + 1 \<and> r \<le> j1' - 1"
      using False by (intro "1.IH"[OF i'_def j1'_def _ eq]) auto
    with i' j1' show ?thesis by linarith
  qed
qed

lemma partition_func_bounds:
  assumes "partition_func lt data a b pivot = (data', mid, already)" and "a < b"
  shows "a \<le> mid \<and> mid < b"
proof -
  define d where "d = Swap data a pivot"
  define i where "i = partition_scan_left lt d a (Suc a) b"
  define j1 where "j1 = partition_scan_right lt d a i b"
  have i: "a + 1 \<le> i" "i \<le> b"
    using assms(2) partition_scan_left_ge[of "Suc a" lt d a b]
      partition_scan_left_le[of "Suc a" b lt d a] by (simp_all add: i_def)
  have j1: "i \<le> j1" "j1 \<le> b"
    using i by (simp_all add: j1_def partition_scan_right_ge partition_scan_right_le)
  show ?thesis
  proof (cases "i \<ge> j1")
    case True
    then have "mid = j1 - 1"
      using assms(1) by (simp add: partition_func_def Let_def d_def i_def j1_def)
    with i j1 show ?thesis by auto
  next
    case False
    obtain d2 r where loop: "partition_loop lt (Swap d i (j1 - Suc 0)) a (Suc i) (j1 - Suc 0) = (d2, r)"
      by (cases "partition_loop lt (Swap d i (j1 - Suc 0)) a (Suc i) (j1 - Suc 0)") auto
    have "mid = r - 1"
      using assms(1) False loop
      by (simp add: partition_func_def Let_def d_def[symmetric] i_def[symmetric] j1_def[symmetric])
    moreover have "Suc i \<le> r + 1 \<and> r \<le> j1 - Suc 0"
      using False by (intro partition_loop_bounds[OF loop]) auto
    ultimately show ?thesis using i j1 by linarith
  qed
qed

lemma partitionEqual_loop_ge:
  assumes "partitionEqual_loop lt data a i j1 = (data', r)"
  shows "i \<le> r"
  using assms
proof (induction lt data a i j1 arbitrary: data' r rule: partitionEqual_loop.induct)
  case (1 lt data a i j1)
  define i' where "i' = partitionEqual_scan_left lt data a i j1"
  define j1' where "j1' = partitionEqual_scan_right lt data a i' j1"
  have i': "i \<le> i'"
    by (simp add: i'_def partitionEqual_scan_left_ge)
  show ?case
  proof (cases "i' \<ge> j1'")
    case True
    then have "r = i'"
      using "1.prems" by (subst (asm) partitionEqual_loop.simps) (auto simp: i'_def j1'_def Let_def)
    with i' show ?thesis by simp
  next
    case False
    then have eq: "partitionEqual_loop lt (Swap data i' (j1' - 1)) a (i' + 1) (j1' - 1) = (data', r)"
      using "1.prems" by (subst (asm) partitionEqual_loop.simps) (simp add: i'_def j1'_def Let_def)
    have "i' + 1 \<le> r"
      using False by (intro "1.IH"[OF i'_def j1'_def _ eq]) auto
    with i' show ?thesis by simp
  qed
qed

lemma partitionEqual_func_gt:
  assumes "partitionEqual_func lt data a b pivot = (data', mid)"
  shows "a < mid"
  using partitionEqual_loop_ge[of lt "Swap data a pivot" a "a + 1" b data' mid] assms
  by (simp add: partitionEqual_func_def Let_def)

text \<open>
  \<open>pdqsort_func\<close> is a loop around a recursive call. \<open>pdqsort_loop\<close> is one pass of the
  loop from its top, with the two flags the loop carries; the recursive call of the
  source starts with both flags true.
\<close>

function pdqsort_loop ::
  "('a \<Rightarrow> 'a \<Rightarrow> bool) \<Rightarrow> 'a list \<Rightarrow> nat \<Rightarrow> nat \<Rightarrow> nat \<Rightarrow> bool \<Rightarrow> bool \<Rightarrow> 'a list" where
  "pdqsort_loop lt data a b limit wasBalanced wasPartitioned =
     (let len = b - a in
      if len \<le> maxInsertion then insertionSort_func lt data a b
      else if limit = 0 then heapSort_func lt data a b
      else
        let (data, limit) =
              (if \<not> wasBalanced then (breakPatterns_func data a b, limit - 1)
               else (data, limit));
            (pivot, hint) = choosePivot_func lt data a b;
            (data, pivot, hint) =
              (if hint = decreasingHint
               then (reverseRange_func data a b, (b - 1) - (pivot - a), increasingHint)
               else (data, pivot, hint));
            (data, sorted) =
              (if wasBalanced \<and> wasPartitioned \<and> hint = increasingHint
               then partialInsertionSort_func lt data a b
               else (data, False))
        in if sorted then data
           else if a > 0 \<and> \<not> Less lt data (a - 1) pivot then
             (let (data, mid) = partitionEqual_func lt data a b pivot
              in pdqsort_loop lt data mid b limit wasBalanced wasPartitioned)
           else
             (let (data, mid, alreadyPartitioned) = partition_func lt data a b pivot;
                  leftLen = mid - a;
                  rightLen = b - mid;
                  balanceThreshold = len div 8
              in if leftLen < rightLen then
                   pdqsort_loop lt (pdqsort_loop lt data a mid limit True True)
                     (mid + 1) b limit (leftLen \<ge> balanceThreshold) alreadyPartitioned
                 else
                   pdqsort_loop lt (pdqsort_loop lt data (mid + 1) b limit True True)
                     a mid limit (rightLen \<ge> balanceThreshold) alreadyPartitioned))"
  by pat_completeness auto

termination
  by (relation "measure (\<lambda>(lt, data, a, b, limit, wb, wp). b - a)")
     (auto simp: maxInsertion_def
           dest!: partitionEqual_func_gt[OF sym] partition_func_bounds[OF sym])

declare pdqsort_loop.simps [simp del]

definition pdqsort_func ::
  "('a \<Rightarrow> 'a \<Rightarrow> bool) \<Rightarrow> 'a list \<Rightarrow> nat \<Rightarrow> nat \<Rightarrow> nat \<Rightarrow> 'a list" where
  "pdqsort_func lt data a b limit = pdqsort_loop lt data a b limit True True"

definition sort_Slice :: "('a \<Rightarrow> 'a \<Rightarrow> bool) \<Rightarrow> 'a list \<Rightarrow> 'a list" where
  "sort_Slice lt x =
     (let len = length x;
          limit = bits_Len len
      in pdqsort_func lt x 0 len limit)"

section \<open>Sorting and selecting repositories (patina.go)\<close>

definition SortByAge :: "Repository list \<Rightarrow> Repository list" where
  "SortByAge repos = sort_Slice (\<lambda>x y. Before (LastUpdated x) (LastUpdated y)) repos"

definition SortByAgeDesc :: "Repository list \<Rightarrow> Repository list" where
  "SortByAgeDesc repos = sort_Slice (\<lambda>x y. After (LastUpdated x) (LastUpdated y)) repos"

text \<open>
  A slice expression \<open>s[:n]\<close> panics unless \<open>0 <= n <= cap(s)\<close>; the capacity of the
  copy made by \<open>GetTopStale\<close> is its length.
\<close>

datatype panic = SliceBoundsOutOfRange int

definition slice_to :: "'a list \<Rightarrow> int \<Rightarrow> panic + 'a list" where
  "slice_to s n =
     (if n < 0 \<or> n > int (length s) then Inl (SliceBoundsOutOfRange n)
      else Inr (take (nat n) s))"

definition GetTopStale :: "Repository list \<Rightarrow> int \<Rightarrow> panic + Repository list" where
  "GetTopStale repos n =
     (if length repos = 0 then Inr []
      else
        let sorted = SortByAge repos;
            n = (if n > int (length sorted) then int (length sorted) else n)
        in slice_to sorted n)"

section \<open>The scenario of the specification\<close>

text \<open>
  Six repositories last updated 1, 30, 90, 120, 400 and 800 days before the reference
  time (2024-06-15 12:00 UTC, the one of the tests).
\<close>

definition scenario_now :: Time where
  "scenario_now = 1718452800 * Second"

definition scenario_repo :: "string \<Rightarrow> int \<Rightarrow> Repository" where
  "scenario_repo name d =
     \<lparr>Name = name, FullName = ''org/'' @ name,
      LastUpdated = scenario_now - d * (24 * Hour), HTMLURL = ''''\<rparr>"

definition scenario_repos :: "Repository list" where
  "scenario_repos =
     [scenario_repo ''a'' 1, scenario_repo ''b'' 30, scenario_repo ''c'' 90,
      scenario_repo ''d'' 120, scenario_repo ''e'' 400, scenario_repo ''f'' 800]"

section \<open>Example values: a cache, worlds, clients\<close>

text \<open>Calling \<open>Scan\<close> repeatedly with the same arguments, each call in the world the
  previous one left.\<close>

fun Scan_repeat ::
  "Scanner \<Rightarrow> string \<Rightarrow> ScanOptions \<Rightarrow> nat \<Rightarrow> World \<Rightarrow> (error + ScanResult) list \<times> World" where
  "Scan_repeat s org opts 0 w = ([], w)"
| "Scan_repeat s org opts (Suc n) w =
     (let (r, w1) = Scan s org opts w;
          (rs, w2) = Scan_repeat s org opts n w1
      in (r # rs, w2))"

text \<open>
  A cache in a user's cache directory, a world with no files in which no operation
  fails and the clock advances by a second at every reading, a client that returns two
  repositories and one that fails.
\<close>

definition example_cache :: Cache where
  "example_cache = \<lparr>baseDir = ''/home/user/.cache/patina''\<rparr>"

definition example_world :: World where
  "example_world =
     \<lparr>files = Map.empty, clock = (\<lambda>n. scenario_now + int n * Second), ticks = 0,
      io_error = (\<lambda>_ _. None), fetches = 0, stdout = []\<rparr>"

definition example_scanner :: Scanner where
  "example_scanner =
     \<lparr>client = (\<lambda>_ _. Inr [scenario_repo ''a'' 1, scenario_repo ''b'' 30]),
      cache = example_cache\<rparr>"

definition failing_scanner :: Scanner where
  "failing_scanner =
     \<lparr>client = (\<lambda>_ _. Inl (ClientError ''failed to fetch repositories'')),
      cache = example_cache\<rparr>"

definition example_data :: OrganizationCache where
  "example_data =
     \<lparr>Organization = ''test-org'', FetchedAt = 0,
      Repositories = [scenario_repo ''a'' 1, scenario_repo ''b'' 30]\<rparr>"

definition readonly_world :: World where
  "readonly_world =
     example_world\<lparr>io_error :=
       (\<lambda>op path. if op = OpWriteFile then Some (PathError ''permission denied'') else None)\<rparr>"


section \<open>Auxiliary notions\<close>

text \<open>A cleaned list of elements: nothing empty, no \<open>.\<close>, no separator inside an
  element, and \<open>..\<close> only in front, and only when the path is not rooted.\<close>

definition cleaned :: "bool \<Rightarrow> string list \<Rightarrow> bool" where
  "cleaned rooted es \<longleftrightarrow>
     (\<forall>e \<in> set es. e \<noteq> [] \<and> e \<noteq> ''.'' \<and> CHR ''/'' \<notin> set e) \<and>
     ''..'' \<notin> set (dropWhile (\<lambda>e. e = ''..'') es) \<and>
     (rooted \<longrightarrow> ''..'' \<notin> set es)"

section \<open>Notions for the correctness of the sort\<close>

text \<open>
  Notions for the correctness of the sort. \<open>by_key key\<close> is the comparison "the key of
  the first is smaller"; \<open>perm_on data data' a b\<close> says that \<open>data'\<close> is \<open>data\<close> with the
  elements at the indices from \<open>a\<close> up to \<open>b - 1\<close> rearranged; \<open>range_sorted\<close> that the keys
  at these indices ascend; \<open>below_le\<close> that no key before \<open>a\<close> exceeds a key in the range.
\<close>

definition by_key :: "('a \<Rightarrow> 'k::linorder) \<Rightarrow> 'a \<Rightarrow> 'a \<Rightarrow> bool" where
  "by_key key x y \<longleftrightarrow> key x < key y"

definition perm_on :: "'a list \<Rightarrow> 'a list \<Rightarrow> nat \<Rightarrow> nat \<Rightarrow> bool" where
  "perm_on data data' a b \<longleftrightarrow>
     length data' = length data \<and> mset data' = mset data \<and>
     (\<forall>k. k < length data \<and> (k < a \<or> b \<le> k) \<longrightarrow> data' ! k = data ! k)"

definition range_sorted :: "('a \<Rightarrow> 'k::linorder) \<Rightarrow> 'a list \<Rightarrow> nat \<Rightarrow> nat \<Rightarrow> bool" where
  "range_sorted key data a b \<longleftrightarrow>
     (\<forall>i j. a \<le> i \<and> i \<le> j \<and> j < b \<longrightarrow> key (data ! i) \<le> key (data ! j))"

definition below_le :: "('a \<Rightarrow> 'k::linorder) \<Rightarrow> 'a list \<Rightarrow> nat \<Rightarrow> nat \<Rightarrow> bool" where
  "below_le key data a b \<longleftrightarrow>
     (\<forall>i j. i < a \<and> a \<le> j \<and> j < b \<longrightarrow> key (data ! i) \<le> key (data ! j))"

text \<open>The heap condition at node \<open>i\<close> of the heap of size \<open>hi\<close> that starts at index
  \<open>first\<close>: the children of the node that lie in the heap have keys no larger than its own.\<close>

definition node_ok :: "('a \<Rightarrow> 'k::linorder) \<Rightarrow> 'a list \<Rightarrow> nat \<Rightarrow> nat \<Rightarrow> nat \<Rightarrow> bool" where
  "node_ok key data first hi i \<longleftrightarrow>
     (2 * i + 1 < hi \<longrightarrow> key (data ! (first + (2 * i + 1))) \<le> key (data ! (first + i))) \<and>
     (2 * i + 2 < hi \<longrightarrow> key (data ! (first + (2 * i + 2))) \<le> key (data ! (first + i)))"

text \<open>
  Thirteen repositories, named by their position; all were last updated at the same
  time except the one at position 6, which is a day older.
\<close>

definition tie_repo :: "nat \<Rightarrow> Repository" where
  "tie_repo i =
     \<lparr>Name = ''repo'' @ itoa (int i), FullName = ''org/repo'' @ itoa (int i),
      LastUpdated = (if i = 6 then scenario_now - 24 * Hour else scenario_now),
      HTMLURL = ''''\<rparr>"

definition tie_repos :: "Repository list" where
  "tie_repos = map tie_repo [0..<13]"

section \<open>Freshness classification\<close>

lemmas time_units = Hour_def Minute_def Second_def Nanosecond_def

lemma Sub_gt_iff:
  assumes "0 \<le> d" and "d < maxDuration"
  shows "Sub t u > d \<longleftrightarrow> t - u > d"
  using assms by (auto simp: Sub_def Let_def minDuration_def maxDuration_def)

lemma CalculateFreshness_cases:
  "CalculateFreshness lastUpdated now =
     (if now - lastUpdated > 180 * (24 * Hour) then FreshnessRed
      else if now - lastUpdated > 60 * (24 * Hour) then FreshnessYellow
      else FreshnessGreen)"
proof -
  have red: "Sub t u > redThreshold \<longleftrightarrow> t - u > 180 * (24 * Hour)" for t u
    using Sub_gt_iff[of redThreshold t u]
    by (simp add: redThreshold_def maxDuration_def time_units)
  have yellow: "Sub t u > yellowThreshold \<longleftrightarrow> t - u > 60 * (24 * Hour)" for t u
    using Sub_gt_iff[of yellowThreshold t u]
    by (simp add: yellowThreshold_def maxDuration_def time_units)
  show ?thesis
    by (simp only: CalculateFreshness_def Let_def red yellow)
qed

lemma Freshness_distinct:
  "FreshnessGreen \<noteq> FreshnessYellow" "FreshnessYellow \<noteq> FreshnessRed"
  "FreshnessGreen \<noteq> FreshnessRed" "FreshnessYellow \<noteq> FreshnessGreen"
  "FreshnessRed \<noteq> FreshnessYellow" "FreshnessRed \<noteq> FreshnessGreen"
  by (simp_all add: FreshnessGreen_def FreshnessYellow_def FreshnessRed_def)

text \<open>
  Claim C1. For every pair of timestamps \<open>CalculateFreshness\<close> returns exactly one of
  green, yellow and red, decided by the age \<open>now - lastUpdated\<close> with strict comparisons:
  green iff the age is at most 60 days, yellow iff it is above 60 and at most 180 days,
  red iff it is above 180 days. An age of exactly 60 days is green and one nanosecond more
  is yellow, exactly 180 days is yellow and one nanosecond more is red, and a negative
  age is green. (The saturation of \<open>Sub\<close> does not change any of the comparisons.)
\<close>

theorem CalculateFreshness_thresholds:
  "CalculateFreshness lastUpdated now \<in> {FreshnessGreen, FreshnessYellow, FreshnessRed}
   \<and> FreshnessGreen \<noteq> FreshnessYellow \<and> FreshnessYellow \<noteq> FreshnessRed
   \<and> FreshnessGreen \<noteq> FreshnessRed
   \<and> (CalculateFreshness lastUpdated now = FreshnessGreen
        \<longleftrightarrow> now - lastUpdated \<le> 60 * (24 * Hour))
   \<and> (CalculateFreshness lastUpdated now = FreshnessYellow
        \<longleftrightarrow> 60 * (24 * Hour) < now - lastUpdated \<and> now - lastUpdated \<le> 180 * (24 * Hour))
   \<and> (CalculateFreshness lastUpdated now = FreshnessRed
        \<longleftrightarrow> 180 * (24 * Hour) < now - lastUpdated)
   \<and> CalculateFreshness (now - 60 * (24 * Hour)) now = FreshnessGreen
   \<and> CalculateFreshness (now - (60 * (24 * Hour) + 1)) now = FreshnessYellow
   \<and> CalculateFreshness (now - 180 * (24 * Hour)) now = FreshnessYellow
   \<and> CalculateFreshness (now - (180 * (24 * Hour) + 1)) now = FreshnessRed
   \<and> (now - lastUpdated < 0 \<longrightarrow> CalculateFreshness lastUpdated now = FreshnessGreen)"
proof -
  have pos: "(0::int) < 24 * Hour" by (simp add: time_units)
  show ?thesis
    using Freshness_distinct pos by (auto simp: CalculateFreshness_cases)
qed

theorem CalculateFreshness_thresholds_witness:
  "(0::int) - 10 < 0 \<and> CalculateFreshness 10 0 = FreshnessGreen"
  using CalculateFreshness_thresholds[of 10 0] by simp

section \<open>Summary and age of the scenario\<close>

lemma Age_whole_days:
  assumes "0 \<le> d" and "d \<le> 100000"
  shows "Age (now - d * (24 * Hour)) now =
     (if d < 1 then ''today''
      else if d = 1 then ''1 day ago''
      else if d < 30 then pluralize d ''day'' @ '' ago''
      else if d div 30 < 12 then pluralize (d div 30) ''month'' @ '' ago''
      else if d div 30 mod 12 = 0 then pluralize (d div 30 div 12) ''year'' @ '' ago''
      else pluralize (d div 30 div 12) ''year'' @ '', '' @
           pluralize (d div 30 mod 12) ''month'' @ '' ago'')"
proof -
  have sub: "Sub now (now - d * (24 * Hour)) = d * (24 * Hour)"
    using assms by (simp add: Sub_def Let_def maxDuration_def minDuration_def time_units)
  have "go_div (d * (24 * Hour)) Hour = d * 24" "go_mod (d * (24 * Hour)) Hour = 0"
    using assms by (simp_all add: go_div_def go_mod_def time_units sgn_if abs_mult)
  then have hours: "Hours (d * (24 * Hour)) / 24 = of_int d"
    by (simp add: Hours_def)
  have days: "int_of_float (Hours (d * (24 * Hour)) / 24) = d"
    using assms by (simp add: hours int_of_float_def)
  have dm: "go_div d 30 = d div 30" "go_div (d div 30) 12 = d div 30 div 12"
    "go_mod (d div 30) 12 = d div 30 mod 12" if "30 \<le> d"
    using that by (simp_all add: go_div_def go_mod_def sgn_if)
  show ?thesis
    using assms by (simp add: Age_def sub days Let_def dm)
qed

lemma itoa_digit: "0 \<le> n \<Longrightarrow> n < 10 \<Longrightarrow> itoa n = [''0123456789'' ! nat n]"
  by (simp add: itoa_def itoa_nat.simps)

lemma map_eq_six:
  assumes "map f xs = [a, b, c, d, e, g]"
  obtains x1 x2 x3 x4 x5 x6 where "xs = [x1, x2, x3, x4, x5, x6]"
    "f x1 = a" "f x2 = b" "f x3 = c" "f x4 = d" "f x5 = e" "f x6 = g"
  using assms by (auto simp: map_eq_Cons_conv)

lemma CalculateFreshness_whole_days:
  "CalculateFreshness (now - d * (24 * Hour)) now =
     (if d \<le> 60 then FreshnessGreen else if d \<le> 180 then FreshnessYellow else FreshnessRed)"
  by (auto simp: CalculateFreshness_cases time_units)

text \<open>
  Claim C4, as amended. For six repositories last updated exactly 1, 30, 90, 120, 400 and
  800 days before \<open>now\<close>, \<open>CalculateSummary\<close> counts 2 green, 2 yellow, 2 red, 6 in
  total; \<open>Age\<close> of the 400-day entry is "1 year, 1 month ago", and \<open>Age\<close> of the
  800-day entry is "2 years, 2 months ago" (800 days are 26 months of 30 days, that is
  2 years and 2 months).
\<close>

theorem scenario_summary_and_ages:
  assumes "map LastUpdated repos = map (\<lambda>d. now - d * (24 * Hour)) [1, 30, 90, 120, 400, 800]"
  shows "CalculateSummary repos now = \<lparr>Green = 2, Yellow = 2, Red = 2, Total = 6\<rparr>
    \<and> Age (now - 400 * (24 * Hour)) now = ''1 year, 1 month ago''
    \<and> Age (now - 800 * (24 * Hour)) now = ''2 years, 2 months ago''"
proof -
  note names = Freshness_distinct
  have "map LastUpdated repos =
      [now - 1 * (24 * Hour), now - 30 * (24 * Hour), now - 90 * (24 * Hour),
       now - 120 * (24 * Hour), now - 400 * (24 * Hour), now - 800 * (24 * Hour)]"
    unfolding assms list.map by (rule refl)
  then obtain r1 r2 r3 r4 r5 r6 where repos: "repos = [r1, r2, r3, r4, r5, r6]"
    and lu: "LastUpdated r1 = now - 1 * (24 * Hour)" "LastUpdated r2 = now - 30 * (24 * Hour)"
      "LastUpdated r3 = now - 90 * (24 * Hour)" "LastUpdated r4 = now - 120 * (24 * Hour)"
      "LastUpdated r5 = now - 400 * (24 * Hour)" "LastUpdated r6 = now - 800 * (24 * Hour)"
    by (rule map_eq_six)
  have f: "CalculateFreshness (LastUpdated r1) now = FreshnessGreen"
    "CalculateFreshness (LastUpdated r2) now = FreshnessGreen"
    "CalculateFreshness (LastUpdated r3) now = FreshnessYellow"
    "CalculateFreshness (LastUpdated r4) now = FreshnessYellow"
    "CalculateFreshness (LastUpdated r5) now = FreshnessRed"
    "CalculateFreshness (LastUpdated r6) now = FreshnessRed"
    unfolding lu CalculateFreshness_whole_days by simp_all
  have "CalculateSummary repos now = \<lparr>Green = 2, Yellow = 2, Red = 2, Total = 6\<rparr>"
    unfolding repos CalculateSummary_def
    by (simp add: summary_step_def f names)
  moreover have "Age (now - 400 * (24 * Hour)) now = ''1 year, 1 month ago''"
    using Age_whole_days[of 400 now] by (simp add: pluralize_def)
  moreover have "Age (now - 800 * (24 * Hour)) now = ''2 years, 2 months ago''"
    using Age_whole_days[of 800 now] by (simp add: pluralize_def itoa_digit)
  ultimately show ?thesis by simp
qed

theorem scenario_summary_and_ages_witness:
  "map LastUpdated scenario_repos =
     map (\<lambda>d. scenario_now - d * (24 * Hour)) [1, 30, 90, 120, 400, 800]
   \<and> CalculateSummary scenario_repos scenario_now = \<lparr>Green = 2, Yellow = 2, Red = 2, Total = 6\<rparr>
   \<and> Age (scenario_now - 400 * (24 * Hour)) scenario_now = ''1 year, 1 month ago''
   \<and> Age (scenario_now - 800 * (24 * Hour)) scenario_now = ''2 years, 2 months ago''"
proof -
  have h: "map LastUpdated scenario_repos =
     map (\<lambda>d. scenario_now - d * (24 * Hour)) [1, 30, 90, 120, 400, 800]"
    by (simp add: scenario_repos_def scenario_repo_def)
  show ?thesis
    using scenario_summary_and_ages[OF h] h by simp
qed

text \<open>
  Claim C4, as stated, fails: \<open>Age\<close> of the 800-day entry of the scenario is not
  "2 years ago".
\<close>

theorem Age_800_days_counterexample:
  "Age (LastUpdated (scenario_repos ! 5)) scenario_now \<noteq> ''2 years ago''"
proof -
  have "LastUpdated (scenario_repos ! 5) = scenario_now - 800 * (24 * Hour)"
    by (simp add: scenario_repos_def scenario_repo_def)
  then show ?thesis
    using Age_whole_days[of 800 scenario_now] by (simp add: pluralize_def itoa_digit)
qed

section \<open>Selecting the stalest repositories\<close>

text \<open>
  Claim C10. For a non-empty list and a negative \<open>n\<close>, \<open>GetTopStale\<close> panics with a
  slice bound out of range: \<open>n\<close> is clamped from above only. For a non-negative \<open>n\<close> it
  returns the first \<open>n\<close> repositories of the sorted copy (all of them when \<open>n\<close> is
  larger than the list), and for an empty list it returns nil whatever \<open>n\<close> is.
\<close>

theorem GetTopStale_negative_panics:
  "(repos \<noteq> [] \<and> n < 0 \<longrightarrow> GetTopStale repos n = Inl (SliceBoundsOutOfRange n))
   \<and> (repos \<noteq> [] \<and> 0 \<le> n \<longrightarrow> GetTopStale repos n = Inr (take (nat n) (SortByAge repos)))
   \<and> GetTopStale [] n = Inr []"
  by (auto simp: GetTopStale_def slice_to_def Let_def)

theorem GetTopStale_negative_panics_witness:
  "[scenario_repo ''a'' 1] \<noteq> [] \<and> (-1::int) < 0
   \<and> GetTopStale [scenario_repo ''a'' 1] (-1) = Inl (SliceBoundsOutOfRange (-1))
   \<and> (0::int) \<le> 3
   \<and> GetTopStale [scenario_repo ''a'' 1] 3 = Inr (take (nat 3) (SortByAge [scenario_repo ''a'' 1]))"
  using GetTopStale_negative_panics[of "[scenario_repo ''a'' 1]" "-1"]
    GetTopStale_negative_panics[of "[scenario_repo ''a'' 1]" 3]
  by simp

section \<open>The cache and the scanner\<close>

lemma time_Now_simps [simp]:
  "fst (time_Now w) = clock w (ticks w)"
  "snd (time_Now w) = w\<lparr>ticks := Suc (ticks w)\<rparr>"
  by (simp_all add: time_Now_def)

lemma Save_eq:
  "Save c data w =
     (case io_error w OpMkdirAll (baseDir c) of
        Some err \<Rightarrow> (Some err, w)
      | None \<Rightarrow>
          (case json_MarshalIndent (data\<lparr>FetchedAt := clock w (ticks w)\<rparr>) of
             Inl err \<Rightarrow> (Some err, w\<lparr>ticks := Suc (ticks w)\<rparr>)
           | Inr jsonData \<Rightarrow>
               (case io_error w OpWriteFile (cacheFilePath c (Organization data)) of
                  Some err \<Rightarrow> (Some err, w\<lparr>ticks := Suc (ticks w)\<rparr>)
                | None \<Rightarrow>
                    (None, w\<lparr>ticks := Suc (ticks w),
                             files := (files w)(cacheFilePath c (Organization data) \<mapsto> jsonData)\<rparr>))))"
  by (simp add: Save_def MkdirAll_def WriteFile_def time_Now_def Let_def
           split: option.splits sum.splits)

lemma Save_None_iff:
  "fst (Save c data w) = None \<longleftrightarrow>
     io_error w OpMkdirAll (baseDir c) = None \<and>
     json_time_ok (clock w (ticks w)) \<and>
     list_all (\<lambda>r. json_time_ok (LastUpdated r)) (Repositories data) \<and>
     io_error w OpWriteFile (cacheFilePath c (Organization data)) = None"
  by (auto simp: Save_eq json_MarshalIndent_def split: option.splits sum.splits)

lemma Save_None:
  assumes "fst (Save c data w) = None"
  shows "snd (Save c data w) =
     w\<lparr>ticks := Suc (ticks w),
       files := (files w)(cacheFilePath c (Organization data) \<mapsto>
         Bytes \<lparr>Organization = json_string (Organization data),
                FetchedAt = clock w (ticks w),
                Repositories = map json_Repository (Repositories data)\<rparr> None)\<rparr>"
  using assms by (auto simp: Save_eq json_MarshalIndent_def split: option.splits sum.splits if_splits)

text \<open>
  Claim C8. Whatever \<open>FetchedAt\<close> the caller passes to \<open>Save\<close> is overwritten: \<open>Save\<close>
  does the same for every value of the field, and the snapshot it stores carries the
  reading of the clock made by \<open>Save\<close> itself.
\<close>

theorem Save_overwrites_FetchedAt:
  "Save c (data\<lparr>FetchedAt := t\<rparr>) w = Save c data w
   \<and> (fst (Save c data w) = None \<longrightarrow>
        files (snd (Save c data w)) (cacheFilePath c (Organization data)) =
          Some (Bytes \<lparr>Organization = json_string (Organization data),
                       FetchedAt = clock w (ticks w),
                       Repositories = map json_Repository (Repositories data)\<rparr> None))"
proof -
  have "Save c (data\<lparr>FetchedAt := t\<rparr>) w = Save c data w"
    by (simp add: Save_eq cong: option.case_cong sum.case_cong)
  then show ?thesis
    by (simp add: Save_None)
qed

lemma example_path: "cacheFilePath example_cache ''test-org'' = ''/home/user/.cache/patina/test-org.json''"
  by code_simp

lemma json_time_ok_example: "json_time_ok (scenario_now + int n * Second)" if "n < 1000"
  using that by (simp add: json_time_ok_def scenario_now_def time_units)

lemma json_time_ok_scenario_repo: "json_time_ok (LastUpdated (scenario_repo name d))" if "0 \<le> d" "d \<le> 1000"
  using that by (simp add: json_time_ok_def scenario_repo_def scenario_now_def time_units)

lemma example_Save_ok: "fst (Save example_cache example_data example_world) = None"
  by (simp add: Save_None_iff example_world_def example_data_def json_time_ok_scenario_repo
      json_time_ok_example[of 0, simplified])

theorem Save_overwrites_FetchedAt_witness:
  "fst (Save example_cache example_data example_world) = None
   \<and> (\<exists>stored. files (snd (Save example_cache example_data example_world))
          (cacheFilePath example_cache ''test-org'') = Some (Bytes stored None)
        \<and> FetchedAt stored = scenario_now \<and> FetchedAt example_data = 0)"
  using Save_overwrites_FetchedAt[where c = example_cache and data = example_data and t = 0
      and w = example_world] example_Save_ok
  by (simp add: example_data_def example_world_def)


lemma LoadWithTime_ticks [simp]:
  "LoadWithTime c org now (w\<lparr>ticks := k\<rparr>) = LoadWithTime c org now w"
  by (simp add: LoadWithTime_def ReadFile_def cong: option.case_cong sum.case_cong)

lemma Load_eq:
  "Load c org w = (LoadWithTime c org (clock w (ticks w)) w, w\<lparr>ticks := Suc (ticks w)\<rparr>)"
  by (simp add: Load_def time_Now_def)

lemma LoadWithTime_stored:
  assumes "files w (cacheFilePath c org) = Some (Bytes d None)"
    and "io_error w OpReadFile (cacheFilePath c org) = None"
  shows "LoadWithTime c org now w =
     (d, if Sub now (FetchedAt d) > cacheValidity then Some ErrCacheExpired else None)"
  using assms by (simp add: LoadWithTime_def ReadFile_def json_Unmarshal_def)

lemma LoadWithTime_missing:
  assumes "files w (cacheFilePath c org) = None"
  shows "snd (LoadWithTime c org now w) \<noteq> None"
  using assms by (simp add: LoadWithTime_def ReadFile_def split: option.splits)

lemma Scan_fetch_eq:
  "Scan_fetch s org now w =
     (case client s (fetches w) org of
        Inl err \<Rightarrow> (Inl err, w\<lparr>fetches := Suc (fetches w)\<rparr>)
      | Inr repos \<Rightarrow>
          (Inr \<lparr>Organization' = org, Repositories' = repos, FetchedAt' = now, FromCache = False\<rparr>,
           case Save (cache s) \<lparr>Organization = org, FetchedAt = now, Repositories = repos\<rparr>
                  (w\<lparr>fetches := Suc (fetches w)\<rparr>) of
             (Some err, w2) \<Rightarrow> Printf (''Warning: failed to save cache: '' @ Error err) w2
           | (None, w2) \<Rightarrow> w2))"
  by (simp add: Scan_fetch_def FetchRepositories_def Let_def split: sum.splits)

lemma Scan_eq:
  "Scan s org opts w =
     (if Refresh opts then Scan_fetch s org (clock w (ticks w)) (w\<lparr>ticks := Suc (ticks w)\<rparr>)
      else case LoadWithTime (cache s) org (clock w (Suc (ticks w))) w of
             (cached, None) \<Rightarrow>
               (Inr \<lparr>Organization' = org, Repositories' = Repositories cached,
                     FetchedAt' = FetchedAt cached, FromCache = True\<rparr>,
                w\<lparr>ticks := Suc (Suc (ticks w))\<rparr>)
           | (cached, Some err) \<Rightarrow>
               Scan_fetch s org (clock w (ticks w)) (w\<lparr>ticks := Suc (Suc (ticks w))\<rparr>))"
  by (simp add: Scan_def Load_eq time_Now_def split: prod.splits option.splits)

lemma Save_error_world:
  assumes "Save c data w = (Some e, w')"
  shows "files w' = files w \<and> stdout w' = stdout w \<and> fetches w' = fetches w"
  using assms by (auto simp: Save_eq split: option.splits sum.splits)

text \<open>
  Claim C6. When fetching is required (refresh requested, or the cache load failed for
  any reason) and the client returns an error, \<open>Scan\<close> returns that same error and the
  files of the cache are as they were. When the client succeeds, \<open>Scan\<close> returns the
  fetched repositories with \<open>FromCache = false\<close> whatever \<open>Save\<close> does; when \<open>Save\<close>
  fails, a warning is printed and the result is still returned.
\<close>

theorem Scan_fetch_error_and_save_failure:
  fixes s :: Scanner and org :: string and opts :: ScanOptions and w :: World
  defines "wl \<equiv> (if Refresh opts then snd (time_Now w)
                  else snd (Load (cache s) org (snd (time_Now w))))"
  defines "ws \<equiv> snd (FetchRepositories s org wl)"
  assumes need: "Refresh opts \<or> snd (fst (Load (cache s) org (snd (time_Now w)))) \<noteq> None"
  shows "(client s (fetches w) org = Inl err \<longrightarrow>
            Scan s org opts w = (Inl err, ws) \<and> files ws = files w)
       \<and> (client s (fetches w) org = Inr repos \<longrightarrow>
            fst (Scan s org opts w) =
              Inr \<lparr>Organization' = org, Repositories' = repos,
                   FetchedAt' = clock w (ticks w), FromCache = False\<rparr>)
       \<and> (client s (fetches w) org = Inr repos \<and>
          fst (Save (cache s) \<lparr>Organization = org, FetchedAt = clock w (ticks w),
                               Repositories = repos\<rparr> ws) = Some e \<longrightarrow>
            fst (Scan s org opts w) =
              Inr \<lparr>Organization' = org, Repositories' = repos,
                   FetchedAt' = clock w (ticks w), FromCache = False\<rparr>
            \<and> files (snd (Scan s org opts w)) = files w
            \<and> stdout (snd (Scan s org opts w)) =
                stdout w @ [''Warning: failed to save cache: '' @ Error e])"
proof -
  have wl: "wl = w\<lparr>ticks := (if Refresh opts then Suc (ticks w) else Suc (Suc (ticks w)))\<rparr>"
    by (simp add: wl_def Load_eq)
  have ws: "ws = wl\<lparr>fetches := Suc (fetches w)\<rparr>"
    by (simp add: ws_def FetchRepositories_def wl)
  have scan: "Scan s org opts w = Scan_fetch s org (clock w (ticks w)) wl"
    using need by (auto simp: Scan_eq wl Load_eq split: prod.splits option.splits)
  have fw: "fetches wl = fetches w" "files wl = files w" "stdout wl = stdout w"
    by (simp_all add: wl)
  show ?thesis
    unfolding scan
    by (auto simp: Scan_fetch_eq fw ws Printf_def dest!: Save_error_world
             split: prod.splits option.splits)
qed


lemma example_cache_simps [simp]:
  "cache example_scanner = example_cache" "cache failing_scanner = example_cache"
  by (simp_all add: example_scanner_def failing_scanner_def)

lemma example_world_simps [simp]:
  "files example_world = Map.empty" "ticks example_world = 0" "fetches example_world = 0"
  "stdout example_world = []" "io_error example_world = (\<lambda>_ _. None)"
  "clock example_world = (\<lambda>n. scenario_now + int n * Second)"
  by (simp_all add: example_world_def)

lemma readonly_world_simps [simp]:
  "files readonly_world = Map.empty" "ticks readonly_world = 0" "fetches readonly_world = 0"
  "stdout readonly_world = []"
  "io_error readonly_world =
     (\<lambda>op path. if op = OpWriteFile then Some (PathError ''permission denied'') else None)"
  "clock readonly_world = (\<lambda>n. scenario_now + int n * Second)"
  by (simp_all add: readonly_world_def example_world_def)

theorem Scan_fetch_error_and_save_failure_witness:
  "snd (fst (Load (cache failing_scanner) ''test-org'' (snd (time_Now example_world)))) \<noteq> None
   \<and> client failing_scanner (fetches example_world) ''test-org'' =
       Inl (ClientError ''failed to fetch repositories'')
   \<and> fst (Scan failing_scanner ''test-org'' \<lparr>Refresh = False\<rparr> example_world) =
       Inl (ClientError ''failed to fetch repositories'')
   \<and> files (snd (Scan failing_scanner ''test-org'' \<lparr>Refresh = False\<rparr> example_world)) =
       files example_world
   \<and> Refresh \<lparr>Refresh = True\<rparr>
   \<and> client example_scanner (fetches readonly_world) ''test-org'' =
       Inr [scenario_repo ''a'' 1, scenario_repo ''b'' 30]
   \<and> fst (Save (cache example_scanner)
         \<lparr>Organization = ''test-org'', FetchedAt = clock readonly_world (ticks readonly_world),
          Repositories = [scenario_repo ''a'' 1, scenario_repo ''b'' 30]\<rparr>
         (snd (FetchRepositories example_scanner ''test-org'' (snd (time_Now readonly_world))))) =
       Some (PathError ''permission denied'')
   \<and> fst (Scan example_scanner ''test-org'' \<lparr>Refresh = True\<rparr> readonly_world) =
       Inr \<lparr>Organization' = ''test-org'',
            Repositories' = [scenario_repo ''a'' 1, scenario_repo ''b'' 30],
            FetchedAt' = scenario_now, FromCache = False\<rparr>
   \<and> stdout (snd (Scan example_scanner ''test-org'' \<lparr>Refresh = True\<rparr> readonly_world)) =
       [''Warning: failed to save cache: permission denied'']"
proof -
  have h1: "Refresh \<lparr>Refresh = False\<rparr> \<or>
      snd (fst (Load (cache failing_scanner) ''test-org'' (snd (time_Now example_world)))) \<noteq> None"
    by (simp add: Load_eq LoadWithTime_missing)
  have c1: "client failing_scanner (fetches example_world) ''test-org'' =
      Inl (ClientError ''failed to fetch repositories'')"
    by (simp add: failing_scanner_def)
  have h2: "Refresh \<lparr>Refresh = True\<rparr> \<or>
      snd (fst (Load (cache example_scanner) ''test-org'' (snd (time_Now readonly_world)))) \<noteq> None"
    by simp
  have c2: "client example_scanner (fetches readonly_world) ''test-org'' =
      Inr [scenario_repo ''a'' 1, scenario_repo ''b'' 30]"
    by (simp add: example_scanner_def)
  have s2: "fst (Save (cache example_scanner)
         \<lparr>Organization = ''test-org'', FetchedAt = clock readonly_world (ticks readonly_world),
          Repositories = [scenario_repo ''a'' 1, scenario_repo ''b'' 30]\<rparr>
         (snd (FetchRepositories example_scanner ''test-org'' (snd (time_Now readonly_world))))) =
       Some (PathError ''permission denied'')"
    using json_time_ok_example[of 1]
    by (simp add: Save_eq FetchRepositories_def json_MarshalIndent_def json_time_ok_scenario_repo)
  show ?thesis
    using Scan_fetch_error_and_save_failure[OF h1,
        of "ClientError ''failed to fetch repositories''" "[]" "ErrNotExist"]
      Scan_fetch_error_and_save_failure[OF h2,
        of "ErrNotExist" "[scenario_repo ''a'' 1, scenario_repo ''b'' 30]"
           "PathError ''permission denied''"]
      h1 c1 c2 s2
    by simp
qed

lemma Scan_cached:
  assumes "\<not> Refresh opts"
    and "files w (cacheFilePath (cache s) org) = Some (Bytes d None)"
    and "io_error w OpReadFile (cacheFilePath (cache s) org) = None"
    and "Sub (clock w (Suc (ticks w))) (FetchedAt d) \<le> cacheValidity"
  shows "Scan s org opts w =
     (Inr \<lparr>Organization' = org, Repositories' = Repositories d,
           FetchedAt' = FetchedAt d, FromCache = True\<rparr>,
      w\<lparr>ticks := Suc (Suc (ticks w))\<rparr>)"
  using assms by (simp add: Scan_eq LoadWithTime_stored)

lemma Scan_repeat_cached:
  assumes "\<not> Refresh opts"
    and "files w (cacheFilePath (cache s) org) = Some (Bytes d None)"
    and "io_error w OpReadFile (cacheFilePath (cache s) org) = None"
    and "\<forall>i<n. Sub (clock w (ticks w + 1 + 2 * i)) (FetchedAt d) \<le> cacheValidity"
  shows "Scan_repeat s org opts n w =
     (replicate n (Inr \<lparr>Organization' = org, Repositories' = Repositories d,
                        FetchedAt' = FetchedAt d, FromCache = True\<rparr>),
      w\<lparr>ticks := ticks w + 2 * n\<rparr>)"
  using assms
proof (induction n arbitrary: w)
  case 0
  then show ?case by simp
next
  case (Suc n)
  have first: "Scan s org opts w =
     (Inr \<lparr>Organization' = org, Repositories' = Repositories d,
           FetchedAt' = FetchedAt d, FromCache = True\<rparr>,
      w\<lparr>ticks := Suc (Suc (ticks w))\<rparr>)"
    using Suc.prems(4)[rule_format, of 0] Suc.prems(1-3) by (intro Scan_cached) simp_all
  have "\<forall>i<n. Sub (clock w (ticks w + 1 + 2 * Suc i)) (FetchedAt d) \<le> cacheValidity"
    using Suc.prems(4) by auto
  then have rest: "Scan_repeat s org opts n (w\<lparr>ticks := Suc (Suc (ticks w))\<rparr>) =
     (replicate n (Inr \<lparr>Organization' = org, Repositories' = Repositories d,
                        FetchedAt' = FetchedAt d, FromCache = True\<rparr>),
      w\<lparr>ticks := Suc (Suc (ticks w)) + 2 * n\<rparr>)"
    using Suc.prems(1-3) Suc.IH[of "w\<lparr>ticks := Suc (Suc (ticks w))\<rparr>"] by simp
  show ?case
    by (simp add: first rest)
qed

lemma Scan_fetches:
  assumes "Refresh opts \<or> files w (cacheFilePath (cache s) org) = None"
    and "client s (fetches w) org = Inr repos"
    and "io_error w OpMkdirAll (baseDir (cache s)) = None"
    and "io_error w OpWriteFile (cacheFilePath (cache s) org) = None"
    and "json_time_ok (clock w (ticks w + (if Refresh opts then 1 else 2)))"
    and "list_all (\<lambda>r. json_time_ok (LastUpdated r)) repos"
  shows "Scan s org opts w =
     (Inr \<lparr>Organization' = org, Repositories' = repos,
           FetchedAt' = clock w (ticks w), FromCache = False\<rparr>,
      w\<lparr>ticks := ticks w + (if Refresh opts then 2 else 3),
        fetches := Suc (fetches w),
        files := (files w)(cacheFilePath (cache s) org \<mapsto>
          Bytes \<lparr>Organization = json_string org,
                 FetchedAt = clock w (ticks w + (if Refresh opts then 1 else 2)),
                 Repositories = map json_Repository repos\<rparr> None)\<rparr>)"
proof -
  have load: "snd (LoadWithTime (cache s) org t w) \<noteq> None" if "\<not> Refresh opts" for t
    using assms(1) that by (simp add: LoadWithTime_missing)
  show ?thesis
  proof (cases "Refresh opts")
    case True
    then show ?thesis
      using assms(2-6)
      by (simp add: Scan_eq Scan_fetch_eq Save_eq json_MarshalIndent_def)
  next
    case False
    obtain cached err where l: "LoadWithTime (cache s) org (clock w (Suc (ticks w))) w = (cached, Some err)"
      using load[OF False, of "clock w (Suc (ticks w))"]
      by (cases "LoadWithTime (cache s) org (clock w (Suc (ticks w))) w") auto
    show ?thesis
      using assms(2-6) False
      by (simp add: Scan_eq l Scan_fetch_eq Save_eq json_MarshalIndent_def)
  qed
qed

text \<open>
  Claim C5. Starting with no cache file for the organization, a first
  \<open>Scan(org, refresh=false)\<close> calls the client and returns \<open>FromCache = false\<close>; any
  number \<open>n\<close> of further scans with \<open>refresh=false\<close> whose loads fall within the
  validity window return \<open>FromCache = true\<close> and do not call the client; a scan with
  \<open>refresh=true\<close> after them calls the client again and returns \<open>FromCache = false\<close>.
  The storage is assumed to work (no operation of package os fails on the cache file, the
  times are in the range JSON can write) and the client to succeed.
\<close>

theorem Scan_uses_cache_until_refresh:
  fixes s :: Scanner and org :: string and w0 :: World and n :: nat
  defines "first \<equiv> Scan s org \<lparr>Refresh = False\<rparr> w0"
  defines "again \<equiv> Scan_repeat s org \<lparr>Refresh = False\<rparr> n (snd first)"
  defines "third \<equiv> Scan s org \<lparr>Refresh = True\<rparr> (snd again)"
  assumes empty: "files w0 (cacheFilePath (cache s) org) = None"
    and fetch1: "client s (fetches w0) org = Inr repos"
    and fetch3: "client s (Suc (fetches w0)) org = Inr repos3"
    and mk: "io_error w0 OpMkdirAll (baseDir (cache s)) = None"
    and wr: "io_error w0 OpWriteFile (cacheFilePath (cache s) org) = None"
    and rd: "io_error w0 OpReadFile (cacheFilePath (cache s) org) = None"
    and times: "json_time_ok (clock w0 (ticks w0 + 2))"
      "list_all (\<lambda>r. json_time_ok (LastUpdated r)) repos"
      "json_time_ok (clock w0 (ticks w0 + 4 + 2 * n))"
      "list_all (\<lambda>r. json_time_ok (LastUpdated r)) repos3"
    and window: "\<forall>i<n. Sub (clock w0 (ticks w0 + 4 + 2 * i)) (clock w0 (ticks w0 + 2))
                   \<le> cacheValidity"
  shows "fst first = Inr \<lparr>Organization' = org, Repositories' = repos,
                         FetchedAt' = clock w0 (ticks w0), FromCache = False\<rparr>
    \<and> fetches (snd first) = fetches w0 + 1
    \<and> fst again = replicate n (Inr \<lparr>Organization' = org,
                                    Repositories' = map json_Repository repos,
                                    FetchedAt' = clock w0 (ticks w0 + 2), FromCache = True\<rparr>)
    \<and> fetches (snd again) = fetches w0 + 1
    \<and> fst third = Inr \<lparr>Organization' = org, Repositories' = repos3,
                        FetchedAt' = clock w0 (ticks w0 + 3 + 2 * n), FromCache = False\<rparr>
    \<and> fetches (snd third) = fetches w0 + 2"
proof -
  define stored where "stored =
     \<lparr>Organization = json_string org, FetchedAt = clock w0 (ticks w0 + 2),
      Repositories = map json_Repository repos\<rparr>"
  define w1 where "w1 = w0\<lparr>ticks := ticks w0 + 3, fetches := Suc (fetches w0),
      files := (files w0)(cacheFilePath (cache s) org \<mapsto> Bytes stored None)\<rparr>"
  have first: "first = (Inr \<lparr>Organization' = org, Repositories' = repos,
                         FetchedAt' = clock w0 (ticks w0), FromCache = False\<rparr>, w1)"
    unfolding first_def w1_def stored_def
    using Scan_fetches[of "\<lparr>Refresh = False\<rparr>" w0 s org repos] empty fetch1 mk wr times(1,2)
    by simp
  have again: "again = (replicate n (Inr \<lparr>Organization' = org,
                                    Repositories' = Repositories stored,
                                    FetchedAt' = FetchedAt stored, FromCache = True\<rparr>),
                        w1\<lparr>ticks := ticks w1 + 2 * n\<rparr>)"
    unfolding again_def first snd_conv
  proof (rule Scan_repeat_cached)
    show "\<forall>i<n. Sub (clock w1 (ticks w1 + 1 + 2 * i)) (FetchedAt stored) \<le> cacheValidity"
      using window by (simp add: w1_def stored_def ac_simps)
  qed (simp_all add: w1_def rd)
  have third: "third = (Inr \<lparr>Organization' = org, Repositories' = repos3,
                        FetchedAt' = clock w0 (ticks w0 + 3 + 2 * n), FromCache = False\<rparr>,
      w1\<lparr>ticks := ticks w0 + 5 + 2 * n, fetches := Suc (Suc (fetches w0)),
        files := (files w1)(cacheFilePath (cache s) org \<mapsto>
          Bytes \<lparr>Organization = json_string org,
                 FetchedAt = clock w0 (ticks w0 + 4 + 2 * n),
                 Repositories = map json_Repository repos3\<rparr> None)\<rparr>)"
    unfolding third_def again snd_conv
    using Scan_fetches[of "\<lparr>Refresh = True\<rparr>" "w1\<lparr>ticks := ticks w1 + 2 * n\<rparr>" s org repos3]
      fetch3 mk wr times(3,4)
    by (simp add: w1_def add.commute add.left_commute)
  show ?thesis
    by (simp add: first again third w1_def stored_def)
qed

theorem Scan_uses_cache_until_refresh_witness:
  "files example_world (cacheFilePath (cache example_scanner) ''test-org'') = None
   \<and> client example_scanner (fetches example_world) ''test-org'' =
        Inr [scenario_repo ''a'' 1, scenario_repo ''b'' 30]
   \<and> Sub (clock example_world 4) (clock example_world 2) \<le> cacheValidity
   \<and> Sub (clock example_world 6) (clock example_world 2) \<le> cacheValidity
   \<and> fst (Scan example_scanner ''test-org'' \<lparr>Refresh = False\<rparr> example_world) =
        Inr \<lparr>Organization' = ''test-org'',
             Repositories' = [scenario_repo ''a'' 1, scenario_repo ''b'' 30],
             FetchedAt' = clock example_world (ticks example_world), FromCache = False\<rparr>
   \<and> fetches (snd (Scan example_scanner ''test-org'' \<lparr>Refresh = False\<rparr> example_world)) =
        fetches example_world + 1
   \<and> fst (Scan_repeat example_scanner ''test-org'' \<lparr>Refresh = False\<rparr> 2
          (snd (Scan example_scanner ''test-org'' \<lparr>Refresh = False\<rparr> example_world))) =
        replicate 2
          (Inr \<lparr>Organization' = ''test-org'',
                Repositories' =
                  map json_Repository [scenario_repo ''a'' 1, scenario_repo ''b'' 30],
                FetchedAt' = clock example_world (ticks example_world + 2),
                FromCache = True\<rparr>)
   \<and> fetches (snd (Scan_repeat example_scanner ''test-org'' \<lparr>Refresh = False\<rparr> 2
          (snd (Scan example_scanner ''test-org'' \<lparr>Refresh = False\<rparr> example_world)))) =
        fetches example_world + 1
   \<and> fst (Scan example_scanner ''test-org'' \<lparr>Refresh = True\<rparr>
          (snd (Scan_repeat example_scanner ''test-org'' \<lparr>Refresh = False\<rparr> 2
            (snd (Scan example_scanner ''test-org'' \<lparr>Refresh = False\<rparr> example_world))))) =
        Inr \<lparr>Organization' = ''test-org'',
             Repositories' = [scenario_repo ''a'' 1, scenario_repo ''b'' 30],
             FetchedAt' = clock example_world (ticks example_world + 3 + 2 * 2),
             FromCache = False\<rparr>
   \<and> fetches
        (snd (Scan example_scanner ''test-org'' \<lparr>Refresh = True\<rparr>
          (snd (Scan_repeat example_scanner ''test-org'' \<lparr>Refresh = False\<rparr> 2
            (snd (Scan example_scanner ''test-org'' \<lparr>Refresh = False\<rparr> example_world)))))) =
        fetches example_world + 2"
proof -
  let ?repos = "[scenario_repo ''a'' 1, scenario_repo ''b'' 30]"
  have empty: "files example_world (cacheFilePath (cache example_scanner) ''test-org'') = None"
    by simp
  have fetch1: "client example_scanner (fetches example_world) ''test-org'' = Inr ?repos"
    and fetch3: "client example_scanner (Suc (fetches example_world)) ''test-org'' = Inr ?repos"
    by (simp_all add: example_scanner_def)
  have io: "io_error example_world OpMkdirAll (baseDir (cache example_scanner)) = None"
    "io_error example_world OpWriteFile (cacheFilePath (cache example_scanner) ''test-org'') = None"
    "io_error example_world OpReadFile (cacheFilePath (cache example_scanner) ''test-org'') = None"
    by simp_all
  have times: "json_time_ok (clock example_world (ticks example_world + 2))"
    "list_all (\<lambda>r. json_time_ok (LastUpdated r)) ?repos"
    "json_time_ok (clock example_world (ticks example_world + 4 + 2 * 2))"
    using json_time_ok_example[of 2] json_time_ok_example[of 8]
    by (simp_all add: json_time_ok_scenario_repo)
  have win: "Sub (clock example_world 4) (clock example_world 2) \<le> cacheValidity"
    "Sub (clock example_world 6) (clock example_world 2) \<le> cacheValidity"
    by (simp_all add: Sub_def cacheValidity_def maxDuration_def minDuration_def time_units)
  have window: "\<forall>i<2. Sub (clock example_world (ticks example_world + 4 + 2 * i))
                   (clock example_world (ticks example_world + 2)) \<le> cacheValidity"
  proof (intro allI impI)
    fix i :: nat
    assume "i < 2"
    then have "i = 0 \<or> i = 1" by auto
    then show "Sub (clock example_world (ticks example_world + 4 + 2 * i))
                   (clock example_world (ticks example_world + 2)) \<le> cacheValidity"
      using win by (elim disjE) simp_all
  qed
  note r = Scan_uses_cache_until_refresh[OF empty fetch1 fetch3 io times(1,2,3,2) window]
  show ?thesis
    using r empty fetch1 win by blast
qed

lemma json_string_valid:
  assumes "ValidString s"
  shows "json_string s = s"
  using assms
proof (induction s rule: ValidString.induct)
  case (1 s)
  show ?case
  proof (cases "s = []")
    case True
    then show ?thesis by (simp add: json_string.simps)
  next
    case False
    then obtain n where n: "rune_len s = Some n" and rest: "ValidString (drop n s)"
      using "1.prems" by (subst (asm) ValidString.simps) (auto split: option.splits)
    have "json_string (drop n s) = drop n s"
      using "1.IH"[OF False n rest] .
    then show ?thesis
      using False n by (subst json_string.simps) simp
  qed
qed

lemma json_Repository_valid:
  assumes "ValidString (Name r)" and "ValidString (FullName r)" and "ValidString (HTMLURL r)"
  shows "json_Repository r = r"
  using assms by (simp add: json_Repository_def json_string_valid)

lemma map_json_Repository_valid:
  assumes "list_all (\<lambda>r. ValidString (Name r) \<and> ValidString (FullName r) \<and> ValidString (HTMLURL r)) repos"
  shows "map json_Repository repos = repos"
  using assms by (induction repos) (simp_all add: json_Repository_valid)

lemma Save_pair:
  assumes "Save c data w = (None, w')"
  shows "w' = w\<lparr>ticks := Suc (ticks w),
       files := (files w)(cacheFilePath c (Organization data) \<mapsto>
         Bytes \<lparr>Organization = json_string (Organization data),
                FetchedAt = clock w (ticks w),
                Repositories = map json_Repository (Repositories data)\<rparr> None)\<rparr>"
  using Save_None[of c data w] assms by simp

lemma Sub_validity:
  "Sub t u > cacheValidity \<longleftrightarrow> t - u > 30 * (24 * Hour)"
  using Sub_gt_iff[of cacheValidity t u]
  by (simp add: cacheValidity_def maxDuration_def time_units)

lemma Scan_after_failed_load:
  assumes "snd (fst (Load (cache s) org (snd (time_Now w)))) \<noteq> None"
  shows "case fst (Scan s org \<lparr>Refresh = False\<rparr> w) of
           Inl e \<Rightarrow> client s (fetches w) org = Inl e
         | Inr r \<Rightarrow> \<not> FromCache r \<and> client s (fetches w) org = Inr (Repositories' r)"
  using assms
  by (auto simp: Scan_eq Load_eq Scan_fetch_eq split: prod.splits option.splits sum.splits)

lemma LoadWithTime_after_Save:
  assumes saved: "Save c data w = (None, w')"
    and rd: "io_error w' OpReadFile (cacheFilePath c (Organization data)) = None"
  shows "LoadWithTime c (Organization data) R w' =
           (\<lparr>Organization = json_string (Organization data),
             FetchedAt = clock w (ticks w),
             Repositories = map json_Repository (Repositories data)\<rparr>,
            if R - clock w (ticks w) > 30 * (24 * Hour) then Some ErrCacheExpired else None)"
proof -
  define stored where "stored =
     \<lparr>Organization = json_string (Organization data), FetchedAt = clock w (ticks w),
      Repositories = map json_Repository (Repositories data)\<rparr>"
  have w': "w' = w\<lparr>ticks := Suc (ticks w),
       files := (files w)(cacheFilePath c (Organization data) \<mapsto> Bytes stored None)\<rparr>"
    using Save_pair[OF saved] by (simp add: stored_def)
  have f: "files w' (cacheFilePath c (Organization data)) = Some (Bytes stored None)"
    by (simp add: w')
  have "LoadWithTime c (Organization data) R w' =
      (stored, if Sub R (FetchedAt stored) > cacheValidity then Some ErrCacheExpired else None)"
    by (rule LoadWithTime_stored[OF f rd])
  then show ?thesis
    by (simp add: Sub_validity stored_def)
qed

text \<open>
  Claim C7, as amended. For a snapshot saved at time \<open>T\<close> (the clock reading of \<open>Save\<close>),
  loading it with a reference time \<open>R\<close> returns the Expired error if and only if
  \<open>R - T\<close> exceeds 30 days: it does at \<open>T\<close> + 31 days and does not at \<open>T\<close> + 29 days.
  In both cases \<open>LoadWithTime\<close> returns the decoded snapshot as its first result, also
  next to the Expired error; it is \<open>Scan\<close> that does not hand it on: after a failed load
  its result is the client's error or the freshly fetched repositories.
\<close>

theorem LoadWithTime_expiry:
  assumes saved: "Save c data w = (None, w')"
    and rd: "io_error w' OpReadFile (cacheFilePath c (Organization data)) = None"
  shows "LoadWithTime c (Organization data) R w' =
           (\<lparr>Organization = json_string (Organization data),
             FetchedAt = clock w (ticks w),
             Repositories = map json_Repository (Repositories data)\<rparr>,
            if R - clock w (ticks w) > 30 * (24 * Hour) then Some ErrCacheExpired else None)
    \<and> snd (LoadWithTime c (Organization data) (clock w (ticks w) + 31 * (24 * Hour)) w') =
        Some ErrCacheExpired
    \<and> snd (LoadWithTime c (Organization data) (clock w (ticks w) + 29 * (24 * Hour)) w') = None
    \<and> (snd (fst (Load (cache s) org (snd (time_Now w1)))) \<noteq> None \<longrightarrow>
         (case fst (Scan s org \<lparr>Refresh = False\<rparr> w1) of
            Inl e \<Rightarrow> client s (fetches w1) org = Inl e
          | Inr r \<Rightarrow> \<not> FromCache r \<and> client s (fetches w1) org = Inr (Repositories' r)))"
proof -
  note load = LoadWithTime_after_Save[OF saved rd]
  have pos: "(0::int) < 24 * Hour" by (simp add: time_units)
  show ?thesis
    using pos Scan_after_failed_load[of s org w1] by (simp add: load)
qed

lemma example_Save_pair:
  "Save example_cache example_data example_world =
     (None, snd (Save example_cache example_data example_world))"
  using example_Save_ok by (simp add: prod_eq_iff)

lemma example_Save_io:
  "io_error (snd (Save example_cache example_data example_world)) op path = None"
  by (simp add: Save_pair[OF example_Save_pair])

lemma example_data_valid:
  "list_all (\<lambda>r. ValidString (Name r) \<and> ValidString (FullName r) \<and> ValidString (HTMLURL r))
     (Repositories example_data)"
proof -
  have "ValidString ''a''" "ValidString ''b''" "ValidString ''org/a''" "ValidString ''org/b''"
    "ValidString ''''"
    by code_simp+
  then show ?thesis
    by (simp add: example_data_def scenario_repo_def)
qed

theorem LoadWithTime_expiry_witness:
  "fst (Save example_cache example_data example_world) = None
   \<and> snd (LoadWithTime example_cache (Organization example_data)
            (clock example_world (ticks example_world) + 31 * (24 * Hour))
            (snd (Save example_cache example_data example_world))) = Some ErrCacheExpired
   \<and> snd (LoadWithTime example_cache (Organization example_data)
            (clock example_world (ticks example_world) + 29 * (24 * Hour))
            (snd (Save example_cache example_data example_world))) = None
   \<and> snd (fst (Load (cache failing_scanner) ''test-org'' (snd (time_Now example_world)))) \<noteq> None
   \<and> (case fst (Scan failing_scanner ''test-org'' \<lparr>Refresh = False\<rparr> example_world) of
        Inl e \<Rightarrow> client failing_scanner (fetches example_world) ''test-org'' = Inl e
      | Inr r \<Rightarrow> \<not> FromCache r \<and>
          client failing_scanner (fetches example_world) ''test-org'' = Inr (Repositories' r))"
proof -
  have h: "snd (fst (Load (cache failing_scanner) ''test-org'' (snd (time_Now example_world)))) \<noteq> None"
    by (simp add: Load_eq LoadWithTime_missing)
  show ?thesis
    using LoadWithTime_expiry[OF example_Save_pair example_Save_io,
        where s = failing_scanner and org = "''test-org''" and ?w1.0 = example_world]
      example_Save_ok h
    by blast
qed

text \<open>
  Claim C7, as stated, fails in its last part: with the Expired error \<open>LoadWithTime\<close>
  returns the stale snapshot, here with its two repositories, not the zero value.
\<close>

theorem LoadWithTime_expired_data_counterexample:
  "snd (LoadWithTime example_cache ''test-org'' (scenario_now + 31 * (24 * Hour))
         (snd (Save example_cache example_data example_world))) = Some ErrCacheExpired
   \<and> Repositories (fst (LoadWithTime example_cache ''test-org'' (scenario_now + 31 * (24 * Hour))
         (snd (Save example_cache example_data example_world)))) =
       [scenario_repo ''a'' 1, scenario_repo ''b'' 30]
   \<and> fst (LoadWithTime example_cache ''test-org'' (scenario_now + 31 * (24 * Hour))
         (snd (Save example_cache example_data example_world))) \<noteq> zeroOrganizationCache"
proof -
  have org: "Organization example_data = ''test-org''"
    by (simp add: example_data_def)
  have repos: "map json_Repository (Repositories example_data) =
      [scenario_repo ''a'' 1, scenario_repo ''b'' 30]"
    using map_json_Repository_valid[OF example_data_valid] by (simp add: example_data_def)
  have pos: "(0::int) < 24 * Hour" by (simp add: time_units)
  show ?thesis
    using LoadWithTime_after_Save[OF example_Save_pair example_Save_io,
        where R = "scenario_now + 31 * (24 * Hour)"] pos
    by (simp add: org repos zeroOrganizationCache_def)
qed




section \<open>The path of a cache file\<close>

lemma split_sep_nonempty [simp]: "split_sep s \<noteq> []"
  by (induction s) (auto split: list.splits)

lemma split_sep_append:
  "split_sep (xs @ CHR ''/'' # ys) = split_sep xs @ split_sep ys"
  by (induction xs) (auto split: list.splits)

lemma split_sep_no_sep:
  assumes "CHR ''/'' \<notin> set s"
  shows "split_sep s = [s]"
  using assms by (induction s) auto

lemma split_sep_elems:
  assumes "e \<in> set (split_sep s)"
  shows "CHR ''/'' \<notin> set e"
  using assms by (induction s arbitrary: e) (auto split: if_splits list.splits)

lemma dropWhile_eq_butlast:
  assumes "d \<notin> set (dropWhile (\<lambda>e. e = d) es)" and "last es \<noteq> d" and "es \<noteq> []"
  shows "d \<notin> set (dropWhile (\<lambda>e. e = d) (butlast es))"
  using assms
proof (induction es)
  case Nil
  then show ?case by simp
next
  case (Cons e es)
  show ?case
  proof (cases "es = []")
    case True
    then show ?thesis by simp
  next
    case False
    show ?thesis
    proof (cases "e = d")
      case True
      then show ?thesis using Cons False by simp
    next
      case ne: False
      then have "d \<notin> set (e # es)" using Cons.prems(1) by simp
      then have "d \<notin> set (butlast (e # es))" by (meson in_set_butlastD)
      then show ?thesis using ne False by simp
    qed
  qed
qed

lemma dropWhile_eq_all:
  assumes "d \<notin> set (dropWhile (\<lambda>e. e = d) es)" and "es \<noteq> []" and "last es = d"
  shows "\<forall>e \<in> set es. e = d"
  using assms
proof (induction es)
  case Nil
  then show ?case by simp
next
  case (Cons e es)
  show ?case
  proof (cases "e = d")
    case True
    show ?thesis
    proof (cases "es = []")
      case Nil: True
      then show ?thesis using True by simp
    next
      case False
      have "d \<notin> set (dropWhile (\<lambda>e. e = d) es)" "last es = d"
        using Cons.prems True False by simp_all
      from Cons.IH[OF this(1) False this(2)] show ?thesis
        using True by simp
    qed
  next
    case False
    then have "d \<notin> set (e # es)" using Cons.prems(1) by simp
    moreover have "last (e # es) \<in> set (e # es)" by (rule last_in_set) simp
    ultimately have False unfolding Cons.prems(3) by (rule notE)
    then show ?thesis ..
  qed
qed

lemma dropWhile_all:
  assumes "\<forall>e \<in> set es. P e"
  shows "dropWhile P (es @ xs) = dropWhile P xs"
  using assms by (induction es) simp_all

lemma dropWhile_eq_snoc:
  assumes "d \<notin> set (dropWhile (\<lambda>e. e = d) es)" and "x \<noteq> d"
  shows "d \<notin> set (dropWhile (\<lambda>e. e = d) (es @ [x]))"
  using assms by (induction es) (auto split: if_splits)

lemma cleanedI:
  assumes "\<And>e. e \<in> set es \<Longrightarrow> e \<noteq> [] \<and> e \<noteq> ''.'' \<and> CHR ''/'' \<notin> set e"
    and "''..'' \<notin> set (dropWhile (\<lambda>e. e = ''..'') es)"
    and "rooted \<Longrightarrow> ''..'' \<notin> set es"
  shows "cleaned rooted es"
  unfolding cleaned_def using assms by blast

lemma cleaned_elem:
  assumes "cleaned rooted es" and "e \<in> set es"
  shows "e \<noteq> [] \<and> e \<noteq> ''.'' \<and> CHR ''/'' \<notin> set e"
  using assms unfolding cleaned_def by blast

lemma cleaned_dotdot:
  assumes "cleaned rooted es"
  shows "''..'' \<notin> set (dropWhile (\<lambda>e. e = ''..'') es)"
  using assms unfolding cleaned_def by blast

lemma cleaned_rooted:
  assumes "cleaned rooted es" and "rooted"
  shows "''..'' \<notin> set es"
  using assms unfolding cleaned_def by blast

lemma cleaned_step:
  assumes cl: "cleaned rooted out" and sep: "CHR ''/'' \<notin> set e"
  shows "cleaned rooted (clean_step rooted out e)"
proof -
  define dd where "dd = ''..''"
  have dd: "dd \<noteq> []" "dd \<noteq> ''.''" "CHR ''/'' \<notin> set dd"
    by (simp_all add: dd_def)
  have el: "x \<noteq> [] \<and> x \<noteq> ''.'' \<and> CHR ''/'' \<notin> set x" if "x \<in> set out" for x
    using cleaned_elem[OF cl that] .
  have dw: "dd \<notin> set (dropWhile (\<lambda>e. e = dd) out)"
    using cleaned_dotdot[OF cl] unfolding dd_def .
  have ro: "dd \<notin> set out" if rooted
    using cleaned_rooted[OF cl that] unfolding dd_def .
  have step: "clean_step rooted out e =
     (if e = [] \<or> e = ''.'' then out
      else if e = dd then
        (if out \<noteq> [] \<and> last out \<noteq> dd then butlast out
         else if \<not> rooted then out @ [dd]
         else out)
      else out @ [e])"
    unfolding clean_step_def dd_def by (rule refl)
  have goal: "cleaned rooted es"
    if "\<And>x. x \<in> set es \<Longrightarrow> x \<noteq> [] \<and> x \<noteq> ''.'' \<and> CHR ''/'' \<notin> set x"
      and "dd \<notin> set (dropWhile (\<lambda>e. e = dd) es)"
      and "rooted \<Longrightarrow> dd \<notin> set es" for es
    using that unfolding dd_def by (rule cleanedI)
  consider (skip) "e = [] \<or> e = ''.''"
    | (pop) "e \<noteq> []" "e \<noteq> ''.''" "e = dd" "out \<noteq> []" "last out \<noteq> dd"
    | (push) "e \<noteq> []" "e \<noteq> ''.''" "e = dd" "out = [] \<or> last out = dd" "\<not> rooted"
    | (root) "e \<noteq> []" "e \<noteq> ''.''" "e = dd" "out = [] \<or> last out = dd" "rooted"
    | (elem) "e \<noteq> []" "e \<noteq> ''.''" "e \<noteq> dd"
    by blast
  then show ?thesis
  proof cases
    case skip
    then have "clean_step rooted out e = out" unfolding step by presburger
    then show ?thesis using cl by simp
  next
    case pop
    then have eq: "clean_step rooted out e = butlast out" unfolding step by presburger
    show ?thesis
      unfolding eq
    proof (rule goal)
      show "x \<noteq> [] \<and> x \<noteq> ''.'' \<and> CHR ''/'' \<notin> set x" if "x \<in> set (butlast out)" for x
        using el[OF in_set_butlastD[OF that]] .
      show "dd \<notin> set (dropWhile (\<lambda>e. e = dd) (butlast out))"
        using dropWhile_eq_butlast[OF dw pop(5) pop(4)] .
      show "dd \<notin> set (butlast out)" if rooted
        using ro[OF that] in_set_butlastD by metis
    qed
  next
    case push
    then have eq: "clean_step rooted out e = out @ [dd]" unfolding step by presburger
    have all: "\<forall>x \<in> set out. x = dd"
    proof (cases "out = []")
      case True
      then show ?thesis by simp
    next
      case False
      then have "last out = dd" using push(4) by blast
      from dropWhile_eq_all[OF dw False this] show ?thesis .
    qed
    have "dropWhile (\<lambda>e. e = dd) (out @ [dd]) = dropWhile (\<lambda>e. e = dd) [dd]"
      using all by (rule dropWhile_all)
    then have empty: "dropWhile (\<lambda>e. e = dd) (out @ [dd]) = []" by simp
    show ?thesis
      unfolding eq
    proof (rule goal)
      show "x \<noteq> [] \<and> x \<noteq> ''.'' \<and> CHR ''/'' \<notin> set x" if "x \<in> set (out @ [dd])" for x
        using that el dd by auto
      show "dd \<notin> set (dropWhile (\<lambda>e. e = dd) (out @ [dd]))"
        unfolding empty by simp
      show "dd \<notin> set (out @ [dd])" if rooted
        using that push(5) by blast
    qed
  next
    case root
    then have "clean_step rooted out e = out" unfolding step by presburger
    then show ?thesis using cl by simp
  next
    case elem
    then have eq: "clean_step rooted out e = out @ [e]" unfolding step by presburger
    show ?thesis
      unfolding eq
    proof (rule goal)
      show "x \<noteq> [] \<and> x \<noteq> ''.'' \<and> CHR ''/'' \<notin> set x" if "x \<in> set (out @ [e])" for x
        using that el elem sep by auto
      show "dd \<notin> set (dropWhile (\<lambda>e. e = dd) (out @ [e]))"
        using dropWhile_eq_snoc[OF dw elem(3)] .
      show "dd \<notin> set (out @ [e])" if rooted
        using ro[OF that] elem(3) by auto
    qed
  qed
qed

lemma cleaned_foldl:
  assumes "cleaned rooted acc" and "\<forall>e \<in> set es. CHR ''/'' \<notin> set e"
  shows "cleaned rooted (foldl (clean_step rooted) acc es)"
  using assms by (induction es arbitrary: acc) (simp_all add: cleaned_step)

lemma cleaned_clean_elems: "cleaned (IsRooted path) (clean_elems path)"
  unfolding clean_elems_def
  by (rule cleaned_foldl) (auto simp: cleaned_def dest: split_sep_elems)

lemma dropWhile_eq_prefix:
  assumes "d \<notin> set (dropWhile (\<lambda>e. e = d) (acc @ d # es))"
  shows "\<forall>e \<in> set acc. e = d"
  using assms
proof (induction acc)
  case Nil
  then show ?case by simp
next
  case (Cons a acc)
  show ?case
  proof (cases "a = d")
    case True
    then have "d \<notin> set (dropWhile (\<lambda>e. e = d) (acc @ d # es))"
      using Cons.prems by simp
    from Cons.IH[OF this] True show ?thesis by simp
  next
    case False
    then have "d \<notin> set (a # acc @ d # es)"
      using Cons.prems by simp
    then have False by simp
    then show ?thesis ..
  qed
qed

lemma cleaned_append_dotdot:
  assumes "cleaned rooted (acc @ ''..'' # es)"
  shows "\<not> rooted \<and> (\<forall>e \<in> set acc. e = ''..'')"
proof -
  have "''..'' \<in> set (acc @ ''..'' # es)" by simp
  then have nr: "\<not> rooted"
    using cleaned_rooted[OF assms] by blast
  have "\<forall>e \<in> set acc. e = ''..''"
    using cleaned_dotdot[OF assms] by (rule dropWhile_eq_prefix)
  with nr show ?thesis by blast
qed

lemma foldl_clean_step_cleaned:
  assumes "cleaned rooted (acc @ es)"
  shows "foldl (clean_step rooted) acc es = acc @ es"
  using assms
proof (induction es arbitrary: acc)
  case Nil
  then show ?case by simp
next
  case (Cons e es)
  have e: "e \<noteq> []" "e \<noteq> ''.''"
    using Cons.prems by (auto simp: cleaned_def)
  have step: "clean_step rooted acc e = acc @ [e]"
  proof (cases "e = ''..''")
    case True
    then have "\<not> rooted" "\<forall>x \<in> set acc. x = ''..''"
      using cleaned_append_dotdot[of rooted acc es] Cons.prems by simp_all
    then have "acc = [] \<or> last acc = ''..''"
      by (cases "acc = []") auto
    then show ?thesis
      using True \<open>\<not> rooted\<close> by (auto simp: clean_step_def)
  next
    case False
    then show ?thesis using e by (simp add: clean_step_def)
  qed
  show ?case
    using Cons.IH[of "acc @ [e]"] Cons.prems by (simp add: step)
qed

lemma split_sep_join_sep:
  assumes "es \<noteq> []" and "\<forall>e \<in> set es. CHR ''/'' \<notin> set e"
  shows "split_sep (join_sep es) = es"
  using assms
proof (induction es rule: join_sep.induct)
  case 1
  then show ?case by simp
next
  case (2 e)
  then show ?case by (simp add: split_sep_no_sep)
next
  case (3 e e' es)
  then show ?case
    by (simp add: split_sep_append split_sep_no_sep)
qed

lemma IsRooted_join_sep:
  assumes "cleaned r es"
  shows "\<not> IsRooted (join_sep es)"
proof (cases es rule: join_sep.cases)
  case 1
  then show ?thesis by (simp add: IsRooted_def)
next
  case (2 e)
  then show ?thesis
    using assms by (cases e) (auto simp: IsRooted_def cleaned_def)
next
  case (3 e e' es')
  then show ?thesis
    using assms by (cases e) (auto simp: IsRooted_def cleaned_def)
qed

lemma Clean_idem:
  "clean_elems (Clean path) = clean_elems path \<and> IsRooted (Clean path) = IsRooted path"
proof -
  let ?es = "clean_elems path"
  let ?r = "IsRooted path"
  have cl: "cleaned ?r ?es" by (rule cleaned_clean_elems)
  have nosep: "\<forall>e \<in> set ?es. CHR ''/'' \<notin> set e"
    using cl by (simp add: cleaned_def)
  have dot: "clean_elems ''.'' = []" "\<not> IsRooted ''.''"
    by (simp_all add: clean_elems_def clean_step_def IsRooted_def)
  have fold: "foldl (clean_step r) [] ?es = ?es" if "r = ?r" for r
    using foldl_clean_step_cleaned[of r "[]" ?es] cl that by simp
  show ?thesis
  proof (cases "path = []")
    case True
    then show ?thesis
      using dot by (simp add: Clean_def) (simp add: clean_elems_def clean_step_def IsRooted_def)
  next
    case False
    show ?thesis
    proof (cases ?r)
      case True
      have r: "IsRooted (CHR ''/'' # join_sep ?es)" by (simp add: IsRooted_def)
      have "clean_elems (CHR ''/'' # join_sep ?es) = ?es"
      proof (cases "?es = []")
        case e: True
        then show ?thesis
          by (simp add: clean_elems_def clean_step_def e)
      next
        case ne: False
        then show ?thesis
          using split_sep_join_sep[OF ne nosep] fold[of True] True r
          by (simp add: clean_elems_def clean_step_def)
      qed
      then show ?thesis
        using True False r by (simp add: Clean_def)
    next
      case nr: False
      show ?thesis
      proof (cases "?es = []")
        case True
        then show ?thesis
          using False nr dot by (simp add: Clean_def)
      next
        case ne: False
        have r: "\<not> IsRooted (join_sep ?es)"
          using IsRooted_join_sep[OF cl] .
        then have "clean_elems (join_sep ?es) = ?es"
          using split_sep_join_sep[OF ne nosep] fold[of False] nr
          by (simp add: clean_elems_def)
        then show ?thesis
          using False nr ne r by (simp add: Clean_def)
      qed
    qed
  qed
qed

lemma clean_elems_join:
  assumes "CHR ''/'' \<notin> set name" and "name \<noteq> []" and "name \<noteq> ''.''" and "name \<noteq> ''..''"
  shows "clean_elems (Join dir name) = clean_elems dir @ [name]
    \<and> IsRooted (Join dir name) = IsRooted dir"
proof (cases "dir = []")
  case True
  have nr: "\<not> IsRooted name"
    using assms(1,2) by (cases name) (auto simp: IsRooted_def)
  have ce: "clean_elems name = [name]"
    using assms by (simp add: clean_elems_def split_sep_no_sep clean_step_def)
  have empty: "clean_elems [] = []" "\<not> IsRooted []"
    by (simp_all add: clean_elems_def clean_step_def IsRooted_def)
  show ?thesis
    using True assms(2) Clean_idem[of name] nr ce empty by (simp add: Join_def)
next
  case False
  have r: "IsRooted (dir @ CHR ''/'' # name) = IsRooted dir"
    using False by (cases dir) (auto simp: IsRooted_def)
  have "clean_elems (dir @ CHR ''/'' # name) = clean_elems dir @ [name]"
    using assms by (simp add: clean_elems_def r split_sep_append split_sep_no_sep clean_step_def)
  then show ?thesis
    using False r Clean_idem[of "dir @ CHR ''/'' # name"] by (simp add: Join_def)
qed

text \<open>
  Claim C2, as amended. The organization name is not sanitized: the cache file path is
  \<open>filepath.Join(baseDir, org + ".json")\<close>. For every organization name without a path
  separator that path is the single element \<open>org.json\<close> under the cleaned base directory,
  hence inside the base directory.
\<close>

theorem cacheFilePath_inside_baseDir:
  assumes "CHR ''/'' \<notin> set org"
  shows "clean_elems (cacheFilePath c org) = clean_elems (baseDir c) @ [org @ ''.json'']
    \<and> inside_dir (baseDir c) (cacheFilePath c org)"
proof -
  have len: "length (org @ ''.json'') \<ge> 5" by simp
  have name: "CHR ''/'' \<notin> set (org @ ''.json'')" "org @ ''.json'' \<noteq> []"
    "org @ ''.json'' \<noteq> ''.''" "org @ ''.json'' \<noteq> ''..''"
    using assms len by (auto simp del: length_append)
  note j = clean_elems_join[OF name, of "baseDir c"]
  show ?thesis
    using j name(4) by (simp add: cacheFilePath_def inside_dir_def Let_def)
qed

theorem cacheFilePath_inside_baseDir_witness:
  "CHR ''/'' \<notin> set ''my-org''
   \<and> cacheFilePath example_cache ''my-org'' = ''/home/user/.cache/patina/my-org.json''
   \<and> inside_dir (baseDir example_cache) (cacheFilePath example_cache ''my-org'')"
proof -
  have h: "CHR ''/'' \<notin> set ''my-org''" by simp
  have p: "cacheFilePath example_cache ''my-org'' = ''/home/user/.cache/patina/my-org.json''"
    by code_simp
  show ?thesis
    using cacheFilePath_inside_baseDir[OF h, of example_cache] h p by blast
qed

text \<open>
  Claim C2, as stated, fails: an organization name with \<open>..\<close> segments gives a cache
  file path outside the base directory.
\<close>

theorem cacheFilePath_traversal_counterexample:
  "cacheFilePath example_cache ''../../../../etc/cron.d/x'' = ''/etc/cron.d/x.json''
   \<and> \<not> inside_dir (baseDir example_cache) (cacheFilePath example_cache ''../../../../etc/cron.d/x'')"
  by code_simp

section \<open>Sorting repositories\<close>

lemma Less_by_key [simp]:
  "Less (by_key key) data i j \<longleftrightarrow> key (data ! i) < key (data ! j)"
  by (simp add: Less_def by_key_def)

lemma length_Swap [simp]: "length (Swap data i j) = length data"
  by (simp add: Swap_def)

lemma nth_Swap:
  assumes "i < length data" and "j < length data"
  shows "Swap data i j ! k = (if k = j then data ! i else if k = i then data ! j else data ! k)"
  using assms by (simp add: Swap_def nth_list_update)

lemma mset_Swap:
  assumes "i < length data" and "j < length data"
  shows "mset (Swap data i j) = mset data"
  unfolding Swap_def using mset_swap[OF assms(2) assms(1)] .

lemma perm_on_refl [simp]: "perm_on data data a b"
  by (simp add: perm_on_def)

lemma perm_on_trans:
  assumes "perm_on d1 d2 a b" and "perm_on d2 d3 a b"
  shows "perm_on d1 d3 a b"
  using assms unfolding perm_on_def by auto

lemma perm_on_mono:
  assumes "perm_on d1 d2 a' b'" and "a \<le> a'" and "b' \<le> b"
  shows "perm_on d1 d2 a b"
  using assms unfolding perm_on_def by auto

lemma perm_on_length:
  assumes "perm_on d1 d2 a b"
  shows "length d2 = length d1"
  using assms unfolding perm_on_def by simp

lemma perm_on_mset:
  assumes "perm_on d1 d2 a b"
  shows "mset d2 = mset d1"
  using assms unfolding perm_on_def by simp

lemma perm_on_outside:
  assumes "perm_on d1 d2 a b" and "k < length d1" and "k < a \<or> b \<le> k"
  shows "d2 ! k = d1 ! k"
  using assms unfolding perm_on_def by blast

lemma perm_on_Swap:
  assumes "a \<le> i" and "i < b" and "a \<le> j" and "j < b" and "b \<le> length data"
  shows "perm_on data (Swap data i j) a b"
proof -
  have ij: "i < length data" "j < length data" using assms by simp_all
  show ?thesis
    unfolding perm_on_def using assms ij by (auto simp: mset_Swap nth_Swap)
qed

lemma perm_on_Swap_trans:
  assumes "perm_on d1 d2 a b" and "a \<le> i" and "i < b" and "a \<le> j" and "j < b"
    and "b \<le> length d1"
  shows "perm_on d1 (Swap d2 i j) a b"
proof -
  have "b \<le> length d2" using assms(1,6) by (simp add: perm_on_length)
  from perm_on_Swap[OF assms(2-5) this] assms(1) show ?thesis
    by (rule perm_on_trans[rotated])
qed

lemma list_three_parts:
  assumes "a \<le> b" and "b \<le> length d"
  shows "d = take a d @ take (b - a) (drop a d) @ drop b d"
proof -
  have "drop a d = take (b - a) (drop a d) @ drop (b - a) (drop a d)"
    by (rule append_take_drop_id[symmetric])
  moreover have "drop (b - a) (drop a d) = drop b d"
    using assms by simp
  ultimately have "drop a d = take (b - a) (drop a d) @ drop b d"
    by simp
  then have "take a d @ drop a d = take a d @ take (b - a) (drop a d) @ drop b d"
    by simp
  then show ?thesis by simp
qed

lemma perm_on_slice:
  assumes p: "perm_on d1 d2 a b" and ab: "a \<le> b" and b: "b \<le> length d1"
  shows "mset (take (b - a) (drop a d2)) = mset (take (b - a) (drop a d1))"
proof -
  have len: "length d2 = length d1" using p by (rule perm_on_length)
  have t: "take a d2 = take a d1"
    using len ab b perm_on_outside[OF p] by (intro nth_equalityI) simp_all
  have dr: "drop b d2 = drop b d1"
    using len ab b perm_on_outside[OF p] by (intro nth_equalityI) simp_all
  have "mset d2 = mset (take a d2) + mset (take (b - a) (drop a d2)) + mset (drop b d2)"
    using list_three_parts[of a b d2] ab b len
    by (metis mset_append add.assoc)
  moreover have "mset d1 = mset (take a d1) + mset (take (b - a) (drop a d1)) + mset (drop b d1)"
    using list_three_parts[of a b d1] ab b
    by (metis mset_append add.assoc)
  ultimately show ?thesis
    using perm_on_mset[OF p] t dr by simp
qed

lemma perm_on_range:
  assumes p: "perm_on d1 d2 a b" and b: "b \<le> length d1" and k: "a \<le> k" "k < b"
  shows "\<exists>k'. a \<le> k' \<and> k' < b \<and> d2 ! k = d1 ! k'"
proof -
  have ab: "a \<le> b" using k by simp
  have len: "length d2 = length d1" using p by (rule perm_on_length)
  let ?s1 = "take (b - a) (drop a d1)" and ?s2 = "take (b - a) (drop a d2)"
  have "d2 ! k = ?s2 ! (k - a)" using k b len by simp
  moreover have "k - a < length ?s2" using k b len by simp
  ultimately have "d2 ! k \<in> set ?s2" by (metis nth_mem)
  also have "set ?s2 = set ?s1"
    using perm_on_slice[OF p ab b] by (rule mset_eq_setD)
  finally obtain i where i: "i < length ?s1" "?s1 ! i = d2 ! k"
    by (auto simp: in_set_conv_nth)
  then have "a + i < b" "d1 ! (a + i) = d2 ! k" using b by simp_all
  then show ?thesis by (intro exI[of _ "a + i"]) simp
qed

lemma perm_on_range_all:
  assumes "perm_on d1 d2 a' b'" and "a \<le> a'" and "b' \<le> b" and "b \<le> length d1"
    and "\<forall>k. a \<le> k \<and> k < b \<longrightarrow> P (d1 ! k)"
  shows "\<forall>k. a \<le> k \<and> k < b \<longrightarrow> P (d2 ! k)"
proof (intro allI impI)
  fix k assume k: "a \<le> k \<and> k < b"
  have p: "perm_on d1 d2 a b" using assms(1-3) by (rule perm_on_mono)
  from perm_on_range[OF p assms(4)] k obtain k' where "a \<le> k'" "k' < b" "d2 ! k = d1 ! k'"
    by blast
  then show "P (d2 ! k)" using assms(5) by simp
qed

lemma below_le_perm_on:
  assumes bl: "below_le key d1 a b" and p: "perm_on d1 d2 a' b'" and "a \<le> a'" and "b' \<le> b"
    and b: "b \<le> length d1"
  shows "below_le key d2 a b"
  unfolding below_le_def
proof (intro allI impI)
  fix i j assume ij: "i < a \<and> a \<le> j \<and> j < b"
  have p': "perm_on d1 d2 a b" using p assms(3,4) by (rule perm_on_mono)
  have i: "d2 ! i = d1 ! i" using perm_on_outside[OF p', of i] ij b by simp
  from perm_on_range[OF p' b] ij obtain j' where "a \<le> j'" "j' < b" "d2 ! j = d1 ! j'"
    by blast
  then show "key (d2 ! i) \<le> key (d2 ! j)"
    using bl ij i unfolding below_le_def by simp
qed

text \<open>Insertion sort. While the element at \<open>j\<close> travels to the left, the range up to
  \<open>i\<close> is sorted except at \<open>j\<close>, and the element at \<open>j\<close> is no larger than those after it.\<close>

lemma insertionSort_inner_correct:
  assumes "a \<le> j" and "j \<le> i" and "i < length data"
    and "\<forall>p q. a \<le> p \<and> p \<le> q \<and> q \<le> i \<and> p \<noteq> j \<and> q \<noteq> j \<longrightarrow> key (data ! p) \<le> key (data ! q)"
    and "\<forall>q. j < q \<and> q \<le> i \<longrightarrow> key (data ! j) \<le> key (data ! q)"
  shows "perm_on data (insertionSort_inner (by_key key) data a j) a (Suc i)
    \<and> range_sorted key (insertionSort_inner (by_key key) data a j) a (Suc i)"
  using assms
proof (induction "by_key key" data a j rule: insertionSort_inner.induct)
  case (1 data a j)
  have SE: "key (data ! p) \<le> key (data ! q)"
    if "a \<le> p" "p \<le> q" "q \<le> i" "p \<noteq> j" "q \<noteq> j" for p q
    using "1.prems"(4) that by blast
  have R: "key (data ! j) \<le> key (data ! q)" if "j < q" "q \<le> i" for q
    using "1.prems"(5) that by blast
  show ?case
  proof (cases "j > a \<and> key (data ! j) < key (data ! (j - 1))")
    case True
    define j' where "j' = j - 1"
    have ja: "a < j" and lt: "key (data ! j) < key (data ! j')"
      using True by (simp_all add: j'_def)
    have j': "a \<le> j'" "j' < j" "j = Suc j'" using ja by (simp_all add: j'_def)
    let ?d = "Swap data j j'"
    have j: "j < length data" "j' < length data" using "1.prems" j' by simp_all
    have nth: "?d ! k = (if k = j' then data ! j else if k = j then data ! j' else data ! k)" for k
      using j j' by (simp add: nth_Swap)
    have se: "\<forall>p q. a \<le> p \<and> p \<le> q \<and> q \<le> i \<and> p \<noteq> j' \<and> q \<noteq> j' \<longrightarrow> key (?d ! p) \<le> key (?d ! q)"
    proof (intro allI impI)
      fix p q assume pq: "a \<le> p \<and> p \<le> q \<and> q \<le> i \<and> p \<noteq> j' \<and> q \<noteq> j'"
      consider (same) "p = q" | (pj) "p = j" "q \<noteq> j" | (qj) "q = j" "p \<noteq> j" | (other) "p \<noteq> j" "q \<noteq> j"
        by blast
      then show "key (?d ! p) \<le> key (?d ! q)"
      proof cases
        case same
        then show ?thesis by simp
      next
        case pj
        have "key (data ! j') \<le> key (data ! q)"
          by (rule SE) (use pq pj j' in auto)
        then show ?thesis using pj pq by (simp add: nth)
      next
        case qj
        have "key (data ! p) \<le> key (data ! j')"
          by (rule SE) (use pq qj j' in auto)
        then show ?thesis using qj pq by (simp add: nth)
      next
        case other
        have "key (data ! p) \<le> key (data ! q)"
          by (rule SE) (use pq other in auto)
        then show ?thesis using other pq by (simp add: nth)
      qed
    qed
    have ri: "\<forall>q. j' < q \<and> q \<le> i \<longrightarrow> key (?d ! j') \<le> key (?d ! q)"
    proof (intro allI impI)
      fix q assume q: "j' < q \<and> q \<le> i"
      show "key (?d ! j') \<le> key (?d ! q)"
      proof (cases "q = j")
        case True
        then show ?thesis using lt by (auto simp: nth)
      next
        case False
        have "key (data ! j) \<le> key (data ! q)"
          by (rule R) (use q False j' in auto)
        then show ?thesis using False q by (simp add: nth)
      qed
    qed
    have IH: "perm_on ?d (insertionSort_inner (by_key key) ?d a j') a (Suc i)
        \<and> range_sorted key (insertionSort_inner (by_key key) ?d a j') a (Suc i)"
    proof -
      have c: "a < j \<and> Less (by_key key) data j (j - 1)" using True by simp
      note ih = "1.hyps"[OF c, folded j'_def]
      show ?thesis
        using j' "1.prems"(2,3) se ri by (intro ih) simp_all
    qed
    have sw: "perm_on data ?d a (Suc i)"
      using j' "1.prems"(1-3) by (intro perm_on_Swap) simp_all
    have eq: "insertionSort_inner (by_key key) data a j = insertionSort_inner (by_key key) ?d a j'"
      using True by (subst insertionSort_inner.simps) (simp add: j'_def)
    show ?thesis
      unfolding eq using IH sw perm_on_trans by blast
  next
    case False
    have eq: "insertionSort_inner (by_key key) data a j = data"
      using False by (subst insertionSort_inner.simps) auto
    have "range_sorted key data a (Suc i)"
      unfolding range_sorted_def
    proof (intro allI impI)
      fix p q assume pq: "a \<le> p \<and> p \<le> q \<and> q < Suc i"
      consider (same) "p = q" | (other) "p \<noteq> j" "q \<noteq> j" | (pj) "p = j" "p < q" | (qj) "q = j" "p < q"
        using pq by linarith
      then show "key (data ! p) \<le> key (data ! q)"
      proof cases
        case same
        then show ?thesis by simp
      next
        case other
        show ?thesis by (rule SE) (use pq other in auto)
      next
        case pj
        show ?thesis unfolding pj(1) by (rule R) (use pq pj in auto)
      next
        case qj
        then have ja: "j > a" using pq by simp
        then have le: "key (data ! (j - 1)) \<le> key (data ! j)" using False by simp
        show ?thesis
        proof (cases "p = j - 1")
          case True
          then show ?thesis using le qj by simp
        next
          case False
          have "key (data ! p) \<le> key (data ! (j - 1))"
            by (rule SE) (use pq qj ja False in auto)
          then show ?thesis using le qj by simp
        qed
      qed
    qed
    then show ?thesis unfolding eq by simp
  qed
qed

lemma insertionSort_outer_correct:
  assumes "a < i" and "b \<le> length data" and "range_sorted key data a i"
  shows "perm_on data (insertionSort_outer (by_key key) data a b i) a b
    \<and> range_sorted key (insertionSort_outer (by_key key) data a b i) a b"
  using assms
proof (induction "by_key key" data a b i rule: insertionSort_outer.induct)
  case (1 data a b i)
  show ?case
  proof (cases "i < b")
    case True
    let ?d = "insertionSort_inner (by_key key) data a i"
    have inner: "perm_on data ?d a (Suc i) \<and> range_sorted key ?d a (Suc i)"
    proof (rule insertionSort_inner_correct)
      show "\<forall>p q. a \<le> p \<and> p \<le> q \<and> q \<le> i \<and> p \<noteq> i \<and> q \<noteq> i \<longrightarrow> key (data ! p) \<le> key (data ! q)"
        using "1.prems"(3) unfolding range_sorted_def by simp
    qed (use True "1.prems" in auto)
    then have p1: "perm_on data ?d a b"
      using True by (auto intro: perm_on_mono)
    have len: "length ?d = length data" using p1 by (rule perm_on_length)
    have IH: "perm_on ?d (insertionSort_outer (by_key key) ?d a b (i + 1)) a b
      \<and> range_sorted key (insertionSort_outer (by_key key) ?d a b (i + 1)) a b"
      using True "1.prems" inner len by (intro "1.hyps") simp_all
    have eq: "insertionSort_outer (by_key key) data a b i =
        insertionSort_outer (by_key key) ?d a b (i + 1)"
      using True by (subst insertionSort_outer.simps) simp
    show ?thesis
      unfolding eq using IH p1 perm_on_trans by blast
  next
    case False
    have eq: "insertionSort_outer (by_key key) data a b i = data"
      using False by (subst insertionSort_outer.simps) auto
    have "range_sorted key data a b"
      using "1.prems"(3) False unfolding range_sorted_def by simp
    then show ?thesis unfolding eq by simp
  qed
qed

lemma insertionSort_func_correct:
  assumes "b \<le> length data"
  shows "perm_on data (insertionSort_func (by_key key) data a b) a b
    \<and> range_sorted key (insertionSort_func (by_key key) data a b) a b"
proof -
  have "range_sorted key data a (a + 1)"
    unfolding range_sorted_def
  proof (intro allI impI)
    fix i j assume "a \<le> i \<and> i \<le> j \<and> j < a + 1"
    then have "i = j" by simp
    then show "key (data ! i) \<le> key (data ! j)" by simp
  qed
  then show ?thesis
    unfolding insertionSort_func_def
    using assms by (intro insertionSort_outer_correct) simp_all
qed

lemma node_ok_cong:
  assumes "data' ! (first + i) = data ! (first + i)"
    and "2 * i + 1 < hi \<Longrightarrow> data' ! (first + (2 * i + 1)) = data ! (first + (2 * i + 1))"
    and "2 * i + 2 < hi \<Longrightarrow> data' ! (first + (2 * i + 2)) = data ! (first + (2 * i + 2))"
    and "node_ok key data first hi i"
  shows "node_ok key data' first hi i"
  using assms unfolding node_ok_def by auto

lemma siftDown_loop_correct:
  assumes "first + hi \<le> length data" and "lo \<le> r"
    and "\<forall>i. lo \<le> i \<and> i < hi \<and> i \<noteq> r \<longrightarrow> node_ok key data first hi i"
    and "\<forall>p c. lo \<le> p \<and> (r = 2 * p + 1 \<or> r = 2 * p + 2) \<and> (c = 2 * r + 1 \<or> c = 2 * r + 2) \<and> c < hi
           \<longrightarrow> key (data ! (first + c)) \<le> key (data ! (first + p))"
  shows "perm_on data (siftDown_loop (by_key key) data r hi first) first (first + hi)
    \<and> (\<forall>i. lo \<le> i \<and> i < hi \<longrightarrow> node_ok key (siftDown_loop (by_key key) data r hi first) first hi i)"
  using assms
proof (induction "by_key key" data r hi first rule: siftDown_loop.induct)
  case (1 data r hi first)
  define c1 where "c1 = 2 * r + 1"
  define c2 where "c2 = 2 * r + 2"
  define K where "K = (\<lambda>k. key (data ! (first + k)))"
  have nodeK: "node_ok key data first hi i \<longleftrightarrow>
      (2 * i + 1 < hi \<longrightarrow> K (2 * i + 1) \<le> K i) \<and> (2 * i + 2 < hi \<longrightarrow> K (2 * i + 2) \<le> K i)" for i
    unfolding node_ok_def K_def by (rule refl)
  have ok: "node_ok key data first hi i" if "lo \<le> i" "i < hi" "i \<noteq> r" for i
    using "1.prems"(3) that by blast
  have par: "K c \<le> K p" if "lo \<le> p" "r = 2 * p + 1 \<or> r = 2 * p + 2" "c = c1 \<or> c = c2" "c < hi" for p c
    using "1.prems"(4) that unfolding K_def c1_def c2_def by blast
  show ?case
  proof (cases "c1 \<ge> hi")
    case True
    have eq: "siftDown_loop (by_key key) data r hi first = data"
      using True unfolding c1_def by (subst siftDown_loop.simps) (simp add: Let_def)
    have "node_ok key data first hi r"
      using True unfolding nodeK c1_def by simp
    then show ?thesis
      unfolding eq using ok by (metis perm_on_refl)
  next
    case False
    then have c1: "c1 < hi" by simp
    define c where "c = (if c2 < hi \<and> K c1 < K c2 then c2 else c1)"
    have c: "c = c1 \<or> c = c2" "c < hi" "r < c"
      using c1 by (auto simp: c_def c1_def c2_def)
    have big: "K c1 \<le> K c" "c2 < hi \<Longrightarrow> K c2 \<le> K c"
      by (auto simp: c_def)
    show ?thesis
    proof (cases "K r < K c")
      case nolt: False
      have eq: "siftDown_loop (by_key key) data r hi first = data"
        using c1 nolt unfolding c_def c1_def c2_def K_def
        by (subst siftDown_loop.simps) (auto simp: Let_def)
      have "node_ok key data first hi r"
        using big nolt c1 unfolding nodeK c1_def c2_def by auto
      then show ?thesis
        unfolding eq using ok by (metis perm_on_refl)
    next
      case lt: True
      define d where "d = Swap data (first + r) (first + c)"
      define K' where "K' = (\<lambda>k. key (d ! (first + k)))"
      have eq: "siftDown_loop (by_key key) data r hi first =
          siftDown_loop (by_key key) d c hi first"
        using c1 lt unfolding c_def c1_def c2_def K_def d_def
        by (subst siftDown_loop.simps) (auto simp: Let_def)
      have rlen: "first + r < length data" "first + c < length data"
        using c "1.prems"(1) by simp_all
      have K': "K' k = (if k = c then K r else if k = r then K c else K k)" for k
        unfolding K'_def K_def d_def using rlen by (simp add: nth_Swap)
      have nodeK': "node_ok key d first hi i \<longleftrightarrow>
        (2 * i + 1 < hi \<longrightarrow> K' (2 * i + 1) \<le> K' i) \<and> (2 * i + 2 < hi \<longrightarrow> K' (2 * i + 2) \<le> K' i)" for i
        unfolding node_ok_def K'_def by (rule refl)
      have sw: "perm_on data d first (first + hi)"
        unfolding d_def using c "1.prems"(1) by (intro perm_on_Swap) simp_all
      have inv1: "\<forall>i. lo \<le> i \<and> i < hi \<and> i \<noteq> c \<longrightarrow> node_ok key d first hi i"
      proof (intro allI impI)
        fix i assume i: "lo \<le> i \<and> i < hi \<and> i \<noteq> c"
        show "node_ok key d first hi i"
        proof (cases "i = r")
          case True
          have "K c1 \<le> K c" "c2 < hi \<longrightarrow> K c2 \<le> K c" "K r \<le> K c"
            using big lt by auto
          then show ?thesis
            unfolding nodeK' True K' using c(1,3) unfolding c1_def c2_def by auto
        next
          case False
          have oki: "(2 * i + 1 < hi \<longrightarrow> K (2 * i + 1) \<le> K i) \<and> (2 * i + 2 < hi \<longrightarrow> K (2 * i + 2) \<le> K i)"
            using ok[of i] i False unfolding nodeK by simp
          show ?thesis
          proof (cases "r = 2 * i + 1 \<or> r = 2 * i + 2")
            case True
            have "K c \<le> K i" using par[of i c] True i c by simp
            then show ?thesis
              unfolding nodeK' K' using oki True False i c(1,3) unfolding c1_def c2_def
              by auto
          next
            case nochild: False
            show ?thesis
              unfolding nodeK' K' using oki nochild False i c(1) unfolding c1_def c2_def
              by auto
          qed
        qed
      qed
      have inv2: "\<forall>p c'. lo \<le> p \<and> (c = 2 * p + 1 \<or> c = 2 * p + 2) \<and> (c' = 2 * c + 1 \<or> c' = 2 * c + 2) \<and> c' < hi
           \<longrightarrow> key (d ! (first + c')) \<le> key (d ! (first + p))"
      proof (intro allI impI)
        fix p c' assume a: "lo \<le> p \<and> (c = 2 * p + 1 \<or> c = 2 * p + 2) \<and> (c' = 2 * c + 1 \<or> c' = 2 * c + 2) \<and> c' < hi"
        then have p: "p = r" using c(1) unfolding c1_def c2_def by auto
        have okc: "(2 * c + 1 < hi \<longrightarrow> K (2 * c + 1) \<le> K c) \<and> (2 * c + 2 < hi \<longrightarrow> K (2 * c + 2) \<le> K c)"
          using ok[of c] c "1.prems"(2) unfolding nodeK by simp
        have "c' \<noteq> c" "c' \<noteq> r" using a c by auto
        then have "K' c' \<le> K' p"
          unfolding K' p using okc a c by auto
        then show "key (d ! (first + c')) \<le> key (d ! (first + p))"
          unfolding K'_def .
      qed
      have cond: "\<not> hi \<le> 2 * r + 1" using c1 by (simp add: c1_def)
      have cc: "c = (if 2 * r + 1 + 1 < hi \<and> Less (by_key key) data (first + (2 * r + 1)) (first + (2 * r + 1) + 1) then 2 * r + 1 + 1 else 2 * r + 1)"
        unfolding c_def c1_def c2_def K_def by (simp add: add.assoc)
      have lt': "\<not> \<not> Less (by_key key) data (first + r) (first + c)"
        using lt by (simp add: K_def)
      have IH: "perm_on d (siftDown_loop (by_key key) d c hi first) first (first + hi)
        \<and> (\<forall>i. lo \<le> i \<and> i < hi \<longrightarrow> node_ok key (siftDown_loop (by_key key) d c hi first) first hi i)"
        unfolding d_def
        using "1.prems"(1,2) c(3) inv1 inv2
        by (intro "1.hyps"[OF refl cond cc lt']) (simp_all add: d_def)
      show ?thesis
        unfolding eq using IH sw perm_on_trans by blast
    qed
  qed
qed

lemma range_sorted_offset:
  "range_sorted key data (first + n) (first + m) \<longleftrightarrow>
     (\<forall>i j. n \<le> i \<and> i \<le> j \<and> j < m \<longrightarrow> key (data ! (first + i)) \<le> key (data ! (first + j)))"
proof
  assume R: "range_sorted key data (first + n) (first + m)"
  show "\<forall>i j. n \<le> i \<and> i \<le> j \<and> j < m \<longrightarrow> key (data ! (first + i)) \<le> key (data ! (first + j))"
  proof (intro allI impI)
    fix i j assume "n \<le> i \<and> i \<le> j \<and> j < m"
    then have "first + n \<le> first + i \<and> first + i \<le> first + j \<and> first + j < first + m" by simp
    then show "key (data ! (first + i)) \<le> key (data ! (first + j))"
      using R unfolding range_sorted_def by blast
  qed
next
  assume R: "\<forall>i j. n \<le> i \<and> i \<le> j \<and> j < m \<longrightarrow> key (data ! (first + i)) \<le> key (data ! (first + j))"
  show "range_sorted key data (first + n) (first + m)"
    unfolding range_sorted_def
  proof (intro allI impI)
    fix i j assume a: "first + n \<le> i \<and> i \<le> j \<and> j < first + m"
    then have "n \<le> i - first \<and> i - first \<le> j - first \<and> j - first < m" by auto
    then have "key (data ! (first + (i - first))) \<le> key (data ! (first + (j - first)))"
      using R by blast
    moreover have "first + (i - first) = i" "first + (j - first) = j" using a by auto
    ultimately show "key (data ! i) \<le> key (data ! j)" by simp
  qed
qed

lemma heap_root_max:
  assumes "\<forall>i. i < n \<longrightarrow> node_ok key data first n i" and "i < n"
  shows "key (data ! (first + i)) \<le> key (data ! first)"
  using assms(2)
proof (induction i rule: less_induct)
  case (less i)
  show ?case
  proof (cases "i = 0")
    case True
    then show ?thesis by simp
  next
    case False
    define p where "p = (i - 1) div 2"
    have p: "p < i" "i = 2 * p + 1 \<or> i = 2 * p + 2"
      using False unfolding p_def by presburger+
    have "node_ok key data first n p" using assms(1) p(1) less.prems by simp
    then have "key (data ! (first + i)) \<le> key (data ! (first + p))"
      using p(2) less.prems unfolding node_ok_def by auto
    also have "\<dots> \<le> key (data ! first)" using less.IH[OF p(1)] p(1) less.prems by simp
    finally show ?thesis .
  qed
qed

lemma heapSort_build_correct:
  assumes "first + hi \<le> length data"
    and "\<forall>i. n \<le> i \<and> i < hi \<longrightarrow> node_ok key data first hi i"
  shows "perm_on data (heapSort_build (by_key key) data hi first n) first (first + hi)
    \<and> (\<forall>i. i < hi \<longrightarrow> node_ok key (heapSort_build (by_key key) data hi first n) first hi i)"
  using assms
proof (induction n arbitrary: data)
  case 0
  then show ?case by simp
next
  case (Suc n)
  define d where "d = siftDown_loop (by_key key) data n hi first"
  have s: "perm_on data d first (first + hi) \<and> (\<forall>i. n \<le> i \<and> i < hi \<longrightarrow> node_ok key d first hi i)"
    unfolding d_def
  proof (rule siftDown_loop_correct)
    show "first + hi \<le> length data" by (rule Suc.prems(1))
    show "n \<le> n" by simp
    show "\<forall>i. n \<le> i \<and> i < hi \<and> i \<noteq> n \<longrightarrow> node_ok key data first hi i"
      using Suc.prems(2) by auto
    show "\<forall>p c. n \<le> p \<and> (n = 2 * p + 1 \<or> n = 2 * p + 2) \<and> (c = 2 * n + 1 \<or> c = 2 * n + 2) \<and> c < hi
           \<longrightarrow> key (data ! (first + c)) \<le> key (data ! (first + p))"
      by auto
  qed
  have len: "length d = length data" using s perm_on_length by blast
  have "perm_on d (heapSort_build (by_key key) d hi first n) first (first + hi)
    \<and> (\<forall>i. i < hi \<longrightarrow> node_ok key (heapSort_build (by_key key) d hi first n) first hi i)"
    using s len Suc.prems(1) by (intro Suc.IH) simp_all
  then show ?case
    using s perm_on_trans by (simp add: siftDown_func_def d_def[symmetric]) blast
qed

lemma heapSort_pop_correct:
  assumes "first + m \<le> length data" and "n \<le> m"
    and "\<forall>i. i < n \<longrightarrow> node_ok key data first n i"
    and "range_sorted key data (first + n) (first + m)"
    and "\<forall>i j. i < n \<and> n \<le> j \<and> j < m \<longrightarrow> key (data ! (first + i)) \<le> key (data ! (first + j))"
  shows "perm_on data (heapSort_pop (by_key key) data 0 first n) first (first + m)
    \<and> range_sorted key (heapSort_pop (by_key key) data 0 first n) first (first + m)"
  using assms
proof (induction n arbitrary: data)
  case 0
  then show ?case by simp
next
  case (Suc n)
  define d1 where "d1 = Swap data first (first + n)"
  define d2 where "d2 = siftDown_loop (by_key key) d1 0 n first"
  define K where "K = (\<lambda>k. key (data ! (first + k)))"
  define K1 where "K1 = (\<lambda>k. key (d1 ! (first + k)))"
  define K2 where "K2 = (\<lambda>k. key (d2 ! (first + k)))"
  have n: "n < m" "first + n < length data" "first < length data"
    using Suc.prems(1,2) by simp_all
  have len1: "length d1 = length data" by (simp add: d1_def)
  have K1: "K1 k = (if k = n then K 0 else if k = 0 then K n else K k)" for k
    unfolding K1_def K_def d1_def using n by (simp add: nth_Swap)
  have p1: "perm_on data d1 first (first + m)"
    unfolding d1_def using n Suc.prems(1) by (intro perm_on_Swap) simp_all
  have okK: "(2 * i + 1 < Suc n \<longrightarrow> K (2 * i + 1) \<le> K i) \<and> (2 * i + 2 < Suc n \<longrightarrow> K (2 * i + 2) \<le> K i)"
    if "i < Suc n" for i
    using Suc.prems(3) that unfolding node_ok_def K_def by blast
  have nodeK1: "node_ok key d1 first n i \<longleftrightarrow>
      (2 * i + 1 < n \<longrightarrow> K1 (2 * i + 1) \<le> K1 i) \<and> (2 * i + 2 < n \<longrightarrow> K1 (2 * i + 2) \<le> K1 i)" for i
    unfolding node_ok_def K1_def by (rule refl)
  have root: "K i \<le> K 0" if "i < Suc n" for i
    using heap_root_max[OF Suc.prems(3) that] by (simp add: K_def)
  have sorted: "K i \<le> K j" if "Suc n \<le> i" "i \<le> j" "j < m" for i j
    using Suc.prems(4) that unfolding range_sorted_offset K_def by blast
  have below: "K i \<le> K j" if "i < Suc n" "Suc n \<le> j" "j < m" for i j
    using Suc.prems(5) that unfolding K_def by blast
  have s: "perm_on d1 d2 first (first + n) \<and> (\<forall>i. 0 \<le> i \<and> i < n \<longrightarrow> node_ok key d2 first n i)"
    unfolding d2_def
  proof (rule siftDown_loop_correct)
    show "first + n \<le> length d1" using n len1 by simp
    show "(0::nat) \<le> 0" by simp
    show "\<forall>i. 0 \<le> i \<and> i < n \<and> i \<noteq> 0 \<longrightarrow> node_ok key d1 first n i"
    proof (intro allI impI)
      fix i assume i: "0 \<le> i \<and> i < n \<and> i \<noteq> 0"
      show "node_ok key d1 first n i"
        unfolding nodeK1 K1 using okK[of i] i by auto
    qed
    show "\<forall>p c. 0 \<le> p \<and> (0 = 2 * p + 1 \<or> 0 = 2 * p + 2) \<and> (c = 2 * 0 + 1 \<or> c = 2 * 0 + 2) \<and> c < n
           \<longrightarrow> key (d1 ! (first + c)) \<le> key (d1 ! (first + p))"
      by auto
  qed
  then have p2: "perm_on d1 d2 first (first + n)" by simp
  have len2: "length d2 = length data" using p2 len1 perm_on_length by metis
  have out2: "K2 k = K1 k" if "n \<le> k" "k < m" for k
    unfolding K2_def K1_def
    using perm_on_outside[OF p2, of "first + k"] that Suc.prems(1) len1 by simp
  have in2: "\<exists>k'. k' < n \<and> K2 k = K1 k'" if "k < n" for k
  proof -
    have "first + n \<le> length d1" using n len1 by simp
    from perm_on_range[OF p2 this, of "first + k"] that
    obtain k' where k': "first \<le> k'" "k' < first + n" "d2 ! (first + k) = d1 ! k'" by auto
    then have "k' - first < n" "K2 k = K1 (k' - first)" by (auto simp: K2_def K1_def)
    then show ?thesis by blast
  qed
  have IH: "perm_on d2 (heapSort_pop (by_key key) d2 0 first n) first (first + m)
    \<and> range_sorted key (heapSort_pop (by_key key) d2 0 first n) first (first + m)"
  proof (rule Suc.IH)
    show "first + m \<le> length d2" using Suc.prems(1) len2 by simp
    show "n \<le> m" using n by simp
    show "\<forall>i. i < n \<longrightarrow> node_ok key d2 first n i" using s by simp
    show "range_sorted key d2 (first + n) (first + m)"
      unfolding range_sorted_offset
    proof (intro allI impI)
      fix i j assume a: "n \<le> i \<and> i \<le> j \<and> j < m"
      have "K1 i \<le> K1 j"
      proof (cases "i = n")
        case True
        show ?thesis
        proof (cases "j = n")
          case True
          with \<open>i = n\<close> show ?thesis by simp
        next
          case False
          then have "K 0 \<le> K j" using below[of 0 j] a True by simp
          then show ?thesis unfolding K1 using True False a by simp
        qed
      next
        case False
        then have "K i \<le> K j" using sorted[of i j] a by simp
        then show ?thesis unfolding K1 using False a by auto
      qed
      then have "K2 i \<le> K2 j" using out2[of i] out2[of j] a by simp
      then show "key (d2 ! (first + i)) \<le> key (d2 ! (first + j))" by (simp add: K2_def)
    qed
    show "\<forall>i j. i < n \<and> n \<le> j \<and> j < m \<longrightarrow> key (d2 ! (first + i)) \<le> key (d2 ! (first + j))"
    proof (intro allI impI)
      fix i j assume a: "i < n \<and> n \<le> j \<and> j < m"
      from in2[of i] a obtain i' where i': "i' < n" "K2 i = K1 i'" by blast
      have "K1 i' \<le> K1 j"
      proof (cases "j = n")
        case True
        have "K n \<le> K 0" "K i' \<le> K 0" using root[of n] root[of i'] i' by simp_all
        then show ?thesis unfolding K1 using True i' by auto
      next
        case False
        have "K n \<le> K j" "K i' \<le> K j" using below[of n j] below[of i' j] i' a False by simp_all
        then show ?thesis unfolding K1 using False i' a by auto
      qed
      then have "K2 i \<le> K2 j" using i' out2[of j] a by simp
      then show "key (d2 ! (first + i)) \<le> key (d2 ! (first + j))" by (simp add: K2_def)
    qed
  qed
  have p12: "perm_on data d2 first (first + m)"
    using p1 perm_on_mono[OF p2, of first "first + m"] n perm_on_trans by fastforce
  have eq: "heapSort_pop (by_key key) data 0 first (Suc n) = heapSort_pop (by_key key) d2 0 first n"
    by (simp add: siftDown_func_def d1_def d2_def)
  show ?case
    unfolding eq using IH p12 perm_on_trans by blast
qed

lemma heapSort_func_correct:
  assumes "a \<le> b" and "b \<le> length data"
  shows "perm_on data (heapSort_func (by_key key) data a b) a b
    \<and> range_sorted key (heapSort_func (by_key key) data a b) a b"
proof -
  define hi where "hi = b - a"
  define d where "d = heapSort_build (by_key key) data hi a ((hi - 1) div 2 + 1)"
  have b: "a + hi = b" using assms(1) by (simp add: hi_def)
  have "perm_on data d a (a + hi) \<and> (\<forall>i. i < hi \<longrightarrow> node_ok key d a hi i)"
    unfolding d_def
  proof (rule heapSort_build_correct)
    show "a + hi \<le> length data" using b assms(2) by simp
    show "\<forall>i. (hi - 1) div 2 + 1 \<le> i \<and> i < hi \<longrightarrow> node_ok key data a hi i"
      unfolding node_ok_def by auto
  qed
  then have d: "perm_on data d a b" "\<forall>i. i < hi \<longrightarrow> node_ok key d a hi i"
    using b by simp_all
  have len: "length d = length data" using d(1) by (rule perm_on_length)
  have "perm_on d (heapSort_pop (by_key key) d 0 a hi) a (a + hi)
    \<and> range_sorted key (heapSort_pop (by_key key) d 0 a hi) a (a + hi)"
  proof (rule heapSort_pop_correct)
    show "a + hi \<le> length d" using b assms(2) len by simp
    show "hi \<le> hi" by simp
    show "\<forall>i. i < hi \<longrightarrow> node_ok key d a hi i" by (rule d(2))
    show "range_sorted key d (a + hi) (a + hi)" by (auto simp: range_sorted_def)
    show "\<forall>i j. i < hi \<and> hi \<le> j \<and> j < hi \<longrightarrow> key (d ! (a + i)) \<le> key (d ! (a + j))" by auto
  qed
  moreover have "heapSort_func (by_key key) data a b = heapSort_pop (by_key key) d 0 a hi"
    unfolding heapSort_func_def Let_def d_def hi_def by (rule refl)
  ultimately have "perm_on d (heapSort_func (by_key key) data a b) a b
    \<and> range_sorted key (heapSort_func (by_key key) data a b) a b"
    unfolding b by simp
  then show ?thesis using d(1) perm_on_trans by blast
qed

lemma partition_scan_left_spec:
  assumes "i \<le> j1"
  shows "i \<le> partition_scan_left (by_key key) data a i j1
    \<and> partition_scan_left (by_key key) data a i j1 \<le> j1
    \<and> (\<forall>k. i \<le> k \<and> k < partition_scan_left (by_key key) data a i j1 \<longrightarrow> key (data ! k) < key (data ! a))
    \<and> (partition_scan_left (by_key key) data a i j1 < j1 \<longrightarrow>
         key (data ! a) \<le> key (data ! partition_scan_left (by_key key) data a i j1))"
  using assms
proof (induction "by_key key" data a i j1 rule: partition_scan_left.induct)
  case (1 data a i j1)
  show ?case
  proof (cases "i < j1 \<and> key (data ! i) < key (data ! a)")
    case True
    define r where "r = partition_scan_left (by_key key) data a (i + 1) j1"
    have eq: "partition_scan_left (by_key key) data a i j1 = r"
      using True unfolding r_def by (subst partition_scan_left.simps) simp
    have IH: "i + 1 \<le> r \<and> r \<le> j1
      \<and> (\<forall>k. i + 1 \<le> k \<and> k < r \<longrightarrow> key (data ! k) < key (data ! a))
      \<and> (r < j1 \<longrightarrow> key (data ! a) \<le> key (data ! r))"
      unfolding r_def using True by (intro "1.hyps") simp_all
    have "key (data ! k) < key (data ! a)" if "i \<le> k" "k < r" for k
    proof (cases "k = i")
      case True
      with \<open>i < j1 \<and> key (data ! i) < key (data ! a)\<close> show ?thesis by simp
    next
      case False
      then show ?thesis using IH that by simp
    qed
    then show ?thesis unfolding eq using IH by auto
  next
    case False
    have eq: "partition_scan_left (by_key key) data a i j1 = i"
      using False by (subst partition_scan_left.simps) auto
    show ?thesis unfolding eq using False "1.prems" by auto
  qed
qed

lemma partition_scan_right_spec:
  assumes "i \<le> j1"
  shows "i \<le> partition_scan_right (by_key key) data a i j1
    \<and> partition_scan_right (by_key key) data a i j1 \<le> j1
    \<and> (\<forall>k. partition_scan_right (by_key key) data a i j1 \<le> k \<and> k < j1 \<longrightarrow> key (data ! a) \<le> key (data ! k))
    \<and> (i < partition_scan_right (by_key key) data a i j1 \<longrightarrow>
         (\<exists>t. partition_scan_right (by_key key) data a i j1 = Suc t \<and> key (data ! t) < key (data ! a)))"
  using assms
proof (induction "by_key key" data a i j1 rule: partition_scan_right.induct)
  case (1 data a i j1)
  show ?case
  proof (cases "i < j1 \<and> \<not> key (data ! (j1 - 1)) < key (data ! a)")
    case True
    define r where "r = partition_scan_right (by_key key) data a i (j1 - 1)"
    obtain t where t: "j1 = Suc t" using True by (cases j1) auto
    have eq: "partition_scan_right (by_key key) data a i j1 = r"
      using True unfolding r_def by (subst partition_scan_right.simps) simp
    have IH: "i \<le> r \<and> r \<le> j1 - 1
      \<and> (\<forall>k. r \<le> k \<and> k < j1 - 1 \<longrightarrow> key (data ! a) \<le> key (data ! k))
      \<and> (i < r \<longrightarrow> (\<exists>t. r = Suc t \<and> key (data ! t) < key (data ! a)))"
      unfolding r_def using True by (intro "1.hyps") auto
    have "key (data ! a) \<le> key (data ! k)" if "r \<le> k" "k < j1" for k
    proof (cases "k = t")
      case True
      with \<open>i < j1 \<and> \<not> key (data ! (j1 - 1)) < key (data ! a)\<close> t show ?thesis by auto
    next
      case False
      then show ?thesis using IH that t by simp
    qed
    then show ?thesis unfolding eq using IH t by auto
  next
    case False
    have eq: "partition_scan_right (by_key key) data a i j1 = j1"
      using False by (subst partition_scan_right.simps) auto
    have "\<exists>t. j1 = Suc t \<and> key (data ! t) < key (data ! a)" if lt: "i < j1"
    proof -
      obtain t where t: "j1 = Suc t" using lt by (cases j1) auto
      then show ?thesis using False lt by auto
    qed
    then show ?thesis unfolding eq using "1.prems" by auto
  qed
qed

lemma partition_loop_correct:
  assumes "a < i" and "i \<le> j1" and "j1 \<le> b" and "b \<le> length data"
    and "\<forall>k. a < k \<and> k < i \<longrightarrow> key (data ! k) < key (data ! a)"
    and "\<forall>k. j1 \<le> k \<and> k < b \<longrightarrow> key (data ! a) \<le> key (data ! k)"
    and "partition_loop (by_key key) data a i j1 = (data', r)"
  shows "perm_on data data' (Suc a) b \<and> a < r \<and> r \<le> b
    \<and> (\<forall>k. a < k \<and> k < r \<longrightarrow> key (data' ! k) < key (data ! a))
    \<and> (\<forall>k. r \<le> k \<and> k < b \<longrightarrow> key (data ! a) \<le> key (data' ! k))"
  using assms
proof (induction "by_key key" data a i j1 arbitrary: data' r rule: partition_loop.induct)
  case (1 data a i j1)
  define i' where "i' = partition_scan_left (by_key key) data a i j1"
  define j1' where "j1' = partition_scan_right (by_key key) data a i' j1"
  have L: "i \<le> i'" "i' \<le> j1"
    "\<And>k. i \<le> k \<Longrightarrow> k < i' \<Longrightarrow> key (data ! k) < key (data ! a)"
    "i' < j1 \<Longrightarrow> key (data ! a) \<le> key (data ! i')"
    using partition_scan_left_spec[OF "1.prems"(2), of key data a] unfolding i'_def by blast+
  have R: "i' \<le> j1'" "j1' \<le> j1"
    "\<And>k. j1' \<le> k \<Longrightarrow> k < j1 \<Longrightarrow> key (data ! a) \<le> key (data ! k)"
    "i' < j1' \<Longrightarrow> \<exists>t. j1' = Suc t \<and> key (data ! t) < key (data ! a)"
    using partition_scan_right_spec[OF L(2), of key data a] unfolding j1'_def by blast+
  have small: "key (data ! k) < key (data ! a)" if "a < k" "k < i'" for k
    using "1.prems"(5) L(3)[of k] that by (cases "k < i") auto
  have large: "key (data ! a) \<le> key (data ! k)" if "j1' \<le> k" "k < b" for k
    using "1.prems"(6) R(3)[of k] that by (cases "k < j1") auto
  show ?case
  proof (cases "i' \<ge> j1'")
    case True
    then have res: "data' = data" "r = j1'"
      using "1.prems"(7) by (subst (asm) partition_loop.simps, simp add: i'_def j1'_def Let_def)+
    have "i' = j1'" using True R(1) by simp
    then show ?thesis
      unfolding res using small large "1.prems"(1,3) L(1) R(2) by auto
  next
    case False
    then obtain t where t: "j1' = Suc t" "key (data ! t) < key (data ! a)"
      using R(4) by auto
    have ia: "key (data ! a) \<le> key (data ! i')" using L(4) False R(2) by simp
    have it: "i' < t" using False t ia by (cases "i' = t") auto
    define d where "d = Swap data i' (j1' - 1)"
    have dt: "d = Swap data i' t" by (simp add: d_def t(1))
    have eq: "partition_loop (by_key key) d a (i' + 1) (j1' - 1) = (data', r)"
      using "1.prems"(7) False
      by (subst (asm) partition_loop.simps) (simp add: i'_def[symmetric] j1'_def[symmetric] Let_def d_def)
    have bounds: "i' < length data" "t < length data" "a < i'" "t < b"
      using it t(1) R(2) "1.prems"(1,3,4) L(1) by simp_all
    have nth: "d ! k = (if k = t then data ! i' else if k = i' then data ! t else data ! k)" for k
      unfolding dt using bounds by (simp add: nth_Swap)
    have sw: "perm_on data d (Suc a) b"
      unfolding dt using bounds it "1.prems"(4) by (intro perm_on_Swap) simp_all
    have IH: "perm_on d data' (Suc a) b \<and> a < r \<and> r \<le> b
      \<and> (\<forall>k. a < k \<and> k < r \<longrightarrow> key (data' ! k) < key (d ! a))
      \<and> (\<forall>k. r \<le> k \<and> k < b \<longrightarrow> key (d ! a) \<le> key (data' ! k))"
      unfolding d_def
    proof (rule "1.hyps"[OF i'_def j1'_def])
      show "\<not> j1' \<le> i'" using False by simp
      show "partition_loop (by_key key) (Swap data i' (j1' - 1)) a (i' + 1) (j1' - 1) = (data', r)"
        using eq unfolding d_def .
      show "a < i' + 1" using bounds by simp
      show "i' + 1 \<le> j1' - 1" using it t(1) by simp
      show "j1' - 1 \<le> b" using bounds t(1) by simp
      show "b \<le> length (Swap data i' (j1' - 1))" using "1.prems"(4) by simp
      have "\<forall>k. a < k \<and> k < i' + 1 \<longrightarrow> key (d ! k) < key (d ! a)"
        unfolding nth using small t(2) bounds it by auto
      then show "\<forall>k. a < k \<and> k < i' + 1 \<longrightarrow>
        key (Swap data i' (j1' - 1) ! k) < key (Swap data i' (j1' - 1) ! a)"
        unfolding d_def .
      have "\<forall>k. j1' - 1 \<le> k \<and> k < b \<longrightarrow> key (d ! a) \<le> key (d ! k)"
        unfolding nth using large ia bounds it t(1) by auto
      then show "\<forall>k. j1' - 1 \<le> k \<and> k < b \<longrightarrow>
        key (Swap data i' (j1' - 1) ! a) \<le> key (Swap data i' (j1' - 1) ! k)"
        unfolding d_def .
    qed
    have da: "d ! a = data ! a" unfolding nth using bounds it by simp
    show ?thesis
      using IH sw perm_on_trans unfolding da by blast
  qed
qed

lemma partition_finish:
  assumes "a \<le> mid" and "mid < b" and "b \<le> length d"
    and "\<forall>k. a < k \<and> k \<le> mid \<longrightarrow> key (d ! k) < key (d ! a)"
    and "\<forall>k. mid < k \<and> k < b \<longrightarrow> key (d ! a) \<le> key (d ! k)"
  shows "perm_on d (Swap d mid a) a b \<and> key (Swap d mid a ! mid) = key (d ! a)
     \<and> (\<forall>k. a \<le> k \<and> k < mid \<longrightarrow> key (Swap d mid a ! k) < key (d ! a))
     \<and> (\<forall>k. mid < k \<and> k < b \<longrightarrow> key (d ! a) \<le> key (Swap d mid a ! k))"
proof -
  have len: "mid < length d" "a < length d" using assms(1-3) by simp_all
  have nth: "Swap d mid a ! k = (if k = a then d ! mid else if k = mid then d ! a else d ! k)" for k
    using len by (simp add: nth_Swap)
  have "perm_on d (Swap d mid a) a b"
    using assms(1-3) by (intro perm_on_Swap) simp_all
  then show ?thesis
    unfolding nth using assms(1,2,4,5) by auto
qed

lemma partition_func_correct:
  assumes "a \<le> pivot" and "pivot < b" and "b \<le> length data"
    and "partition_func (by_key key) data a b pivot = (data', mid, already)"
  shows "perm_on data data' a b \<and> a \<le> mid \<and> mid < b
    \<and> key (data' ! mid) = key (data ! pivot)
    \<and> (\<forall>k. a \<le> k \<and> k < mid \<longrightarrow> key (data' ! k) < key (data ! pivot))
    \<and> (\<forall>k. mid < k \<and> k < b \<longrightarrow> key (data ! pivot) \<le> key (data' ! k))"
proof -
  define d0 where "d0 = Swap data a pivot"
  define i where "i = partition_scan_left (by_key key) d0 a (a + 1) b"
  define j1 where "j1 = partition_scan_right (by_key key) d0 a i b"
  have len: "a < length data" "pivot < length data" "a < b" using assms(1-3) by simp_all
  have len0: "length d0 = length data" by (simp add: d0_def)
  have nth0: "d0 ! k = (if k = pivot then data ! a else if k = a then data ! pivot else data ! k)" for k
    unfolding d0_def using len by (simp add: nth_Swap)
  have p0: "perm_on data d0 a b"
    unfolding d0_def using assms(1-3) by (intro perm_on_Swap) simp_all
  have d0a: "d0 ! a = data ! pivot" unfolding nth0 by simp
  have ab: "a + 1 \<le> b" using len by simp
  have L: "a + 1 \<le> i" "i \<le> b"
    "\<And>k. a + 1 \<le> k \<Longrightarrow> k < i \<Longrightarrow> key (d0 ! k) < key (d0 ! a)"
    "i < b \<Longrightarrow> key (d0 ! a) \<le> key (d0 ! i)"
    using partition_scan_left_spec[OF ab, of key d0 a] unfolding i_def by blast+
  have R: "i \<le> j1" "j1 \<le> b"
    "\<And>k. j1 \<le> k \<Longrightarrow> k < b \<Longrightarrow> key (d0 ! a) \<le> key (d0 ! k)"
    "i < j1 \<Longrightarrow> \<exists>t. j1 = Suc t \<and> key (d0 ! t) < key (d0 ! a)"
    using partition_scan_right_spec[OF L(2), of key d0 a] unfolding j1_def by blast+
  show ?thesis
  proof (cases "i \<ge> j1")
    case True
    then have ij: "i = j1" using R(1) by simp
    obtain m where m: "j1 = Suc m" using L(1) ij by (cases j1) auto
    have res: "data' = Swap d0 m a" "mid = m"
      using assms(4) True m unfolding partition_func_def Let_def d0_def[symmetric]
        i_def[symmetric] j1_def[symmetric] by auto
    have "perm_on d0 (Swap d0 m a) a b \<and> key (Swap d0 m a ! m) = key (d0 ! a)
     \<and> (\<forall>k. a \<le> k \<and> k < m \<longrightarrow> key (Swap d0 m a ! k) < key (d0 ! a))
     \<and> (\<forall>k. m < k \<and> k < b \<longrightarrow> key (d0 ! a) \<le> key (Swap d0 m a ! k))"
    proof (rule partition_finish)
      show "a \<le> m" using L(1) ij m by simp
      show "m < b" using R(2) m by simp
      show "b \<le> length d0" using assms(3) len0 by simp
      show "\<forall>k. a < k \<and> k \<le> m \<longrightarrow> key (d0 ! k) < key (d0 ! a)"
        using L(3) ij m by auto
      show "\<forall>k. m < k \<and> k < b \<longrightarrow> key (d0 ! a) \<le> key (d0 ! k)"
        using R(3) m by auto
    qed
    moreover have "a \<le> m" "m < b" using L(1) R(2) ij m by simp_all
    ultimately show ?thesis
      unfolding res d0a using p0 perm_on_trans by blast
  next
    case False
    then obtain t where t: "j1 = Suc t" "key (d0 ! t) < key (d0 ! a)"
      using R(4) by auto
    have ia: "key (d0 ! a) \<le> key (d0 ! i)" using L(4) False R(2) by simp
    have it: "i < t" using False t ia by (cases "i = t") auto
    define d1 where "d1 = Swap d0 i t"
    obtain d2 r where loop: "partition_loop (by_key key) d1 a (i + 1) t = (d2, r)"
      by (cases "partition_loop (by_key key) d1 a (i + 1) t") auto
    have bounds: "i < length d0" "t < length d0" "a < i" "t < b"
      using it t(1) R(2) L(1) assms(3) len0 by simp_all
    have nth1: "d1 ! k = (if k = t then d0 ! i else if k = i then d0 ! t else d0 ! k)" for k
      unfolding d1_def using bounds by (simp add: nth_Swap)
    have p1: "perm_on d0 d1 a b"
      unfolding d1_def using bounds it assms(3) len0 by (intro perm_on_Swap) simp_all
    have len1: "length d1 = length data" by (simp add: d1_def len0)
    have d1a: "d1 ! a = d0 ! a" unfolding nth1 using bounds it by simp
    have P: "perm_on d1 d2 (Suc a) b \<and> a < r \<and> r \<le> b
      \<and> (\<forall>k. a < k \<and> k < r \<longrightarrow> key (d2 ! k) < key (d1 ! a))
      \<and> (\<forall>k. r \<le> k \<and> k < b \<longrightarrow> key (d1 ! a) \<le> key (d2 ! k))"
    proof (rule partition_loop_correct[OF _ _ _ _ _ _ loop])
      show "a < i + 1" using bounds by simp
      show "i + 1 \<le> t" using it by simp
      show "t \<le> b" using bounds by simp
      show "b \<le> length d1" using assms(3) len1 by simp
      show "\<forall>k. a < k \<and> k < i + 1 \<longrightarrow> key (d1 ! k) < key (d1 ! a)"
        unfolding nth1 using L(3) t(2) bounds it by auto
      show "\<forall>k. t \<le> k \<and> k < b \<longrightarrow> key (d1 ! a) \<le> key (d1 ! k)"
        unfolding nth1 using R(3) ia bounds it t(1) by auto
    qed
    obtain m where m: "r = Suc m" using P by (cases r) auto
    have d2a: "d2 ! a = d1 ! a"
      using P perm_on_outside[of d1 d2 "Suc a" b a] len len1 by simp
    have len2: "length d2 = length data" using P perm_on_length len1 by metis
    have res: "data' = Swap d2 m a" "mid = m"
      using assms(4) False t(1) loop m unfolding partition_func_def Let_def d0_def[symmetric]
        i_def[symmetric] j1_def[symmetric] by (auto simp: d1_def[symmetric])
    have "perm_on d2 (Swap d2 m a) a b \<and> key (Swap d2 m a ! m) = key (d2 ! a)
     \<and> (\<forall>k. a \<le> k \<and> k < m \<longrightarrow> key (Swap d2 m a ! k) < key (d2 ! a))
     \<and> (\<forall>k. m < k \<and> k < b \<longrightarrow> key (d2 ! a) \<le> key (Swap d2 m a ! k))"
    proof (rule partition_finish)
      show "a \<le> m" using P m by simp
      show "m < b" using P m by simp
      show "b \<le> length d2" using assms(3) len2 by simp
      show "\<forall>k. a < k \<and> k \<le> m \<longrightarrow> key (d2 ! k) < key (d2 ! a)"
        unfolding d2a using P m by auto
      show "\<forall>k. m < k \<and> k < b \<longrightarrow> key (d2 ! a) \<le> key (d2 ! k)"
        unfolding d2a using P m by auto
    qed
    moreover have "a \<le> m" "m < b" using P m by simp_all
    moreover have "perm_on data d2 a b"
      using p0 p1 P perm_on_mono[of d1 d2 "Suc a" b a b] perm_on_trans by (metis Suc_leD le_refl)
    ultimately show ?thesis
      unfolding res d2a d1a d0a using perm_on_trans by blast
  qed
qed

lemma partitionEqual_scan_left_spec:
  assumes "i \<le> j1"
  shows "i \<le> partitionEqual_scan_left (by_key key) data a i j1
    \<and> partitionEqual_scan_left (by_key key) data a i j1 \<le> j1
    \<and> (\<forall>k. i \<le> k \<and> k < partitionEqual_scan_left (by_key key) data a i j1 \<longrightarrow> key (data ! k) \<le> key (data ! a))
    \<and> (partitionEqual_scan_left (by_key key) data a i j1 < j1 \<longrightarrow>
         key (data ! a) < key (data ! partitionEqual_scan_left (by_key key) data a i j1))"
  using assms
proof (induction "by_key key" data a i j1 rule: partitionEqual_scan_left.induct)
  case (1 data a i j1)
  show ?case
  proof (cases "i < j1 \<and> \<not> key (data ! a) < key (data ! i)")
    case True
    define r where "r = partitionEqual_scan_left (by_key key) data a (i + 1) j1"
    have eq: "partitionEqual_scan_left (by_key key) data a i j1 = r"
      using True unfolding r_def by (subst partitionEqual_scan_left.simps) simp
    have IH: "i + 1 \<le> r \<and> r \<le> j1
      \<and> (\<forall>k. i + 1 \<le> k \<and> k < r \<longrightarrow> key (data ! k) \<le> key (data ! a))
      \<and> (r < j1 \<longrightarrow> key (data ! a) < key (data ! r))"
      unfolding r_def using True by (intro "1.hyps") simp_all
    have "key (data ! k) \<le> key (data ! a)" if "i \<le> k" "k < r" for k
    proof (cases "k = i")
      case True
      with \<open>i < j1 \<and> \<not> key (data ! a) < key (data ! i)\<close> show ?thesis by auto
    next
      case False
      then show ?thesis using IH that by simp
    qed
    then show ?thesis unfolding eq using IH by auto
  next
    case False
    have eq: "partitionEqual_scan_left (by_key key) data a i j1 = i"
      using False by (subst partitionEqual_scan_left.simps) auto
    show ?thesis unfolding eq using False "1.prems" by auto
  qed
qed

lemma partitionEqual_scan_right_spec:
  assumes "i \<le> j1"
  shows "i \<le> partitionEqual_scan_right (by_key key) data a i j1
    \<and> partitionEqual_scan_right (by_key key) data a i j1 \<le> j1
    \<and> (\<forall>k. partitionEqual_scan_right (by_key key) data a i j1 \<le> k \<and> k < j1 \<longrightarrow> key (data ! a) < key (data ! k))
    \<and> (i < partitionEqual_scan_right (by_key key) data a i j1 \<longrightarrow>
         (\<exists>t. partitionEqual_scan_right (by_key key) data a i j1 = Suc t \<and> key (data ! t) \<le> key (data ! a)))"
  using assms
proof (induction "by_key key" data a i j1 rule: partitionEqual_scan_right.induct)
  case (1 data a i j1)
  show ?case
  proof (cases "i < j1 \<and> key (data ! a) < key (data ! (j1 - 1))")
    case True
    define r where "r = partitionEqual_scan_right (by_key key) data a i (j1 - 1)"
    obtain t where t: "j1 = Suc t" using True by (cases j1) auto
    have eq: "partitionEqual_scan_right (by_key key) data a i j1 = r"
      using True unfolding r_def by (subst partitionEqual_scan_right.simps) simp
    have IH: "i \<le> r \<and> r \<le> j1 - 1
      \<and> (\<forall>k. r \<le> k \<and> k < j1 - 1 \<longrightarrow> key (data ! a) < key (data ! k))
      \<and> (i < r \<longrightarrow> (\<exists>t. r = Suc t \<and> key (data ! t) \<le> key (data ! a)))"
      unfolding r_def using True by (intro "1.hyps") auto
    have "key (data ! a) < key (data ! k)" if "r \<le> k" "k < j1" for k
    proof (cases "k = t")
      case True
      with \<open>i < j1 \<and> key (data ! a) < key (data ! (j1 - 1))\<close> t show ?thesis by auto
    next
      case False
      then show ?thesis using IH that t by simp
    qed
    then show ?thesis unfolding eq using IH t by auto
  next
    case False
    have eq: "partitionEqual_scan_right (by_key key) data a i j1 = j1"
      using False by (subst partitionEqual_scan_right.simps) auto
    have "\<exists>t. j1 = Suc t \<and> key (data ! t) \<le> key (data ! a)" if lt: "i < j1"
    proof -
      obtain t where t: "j1 = Suc t" using lt by (cases j1) auto
      then show ?thesis using False lt by auto
    qed
    then show ?thesis unfolding eq using "1.prems" by auto
  qed
qed

lemma partitionEqual_loop_correct:
  assumes "a < i" and "i \<le> j1" and "j1 \<le> b" and "b \<le> length data"
    and "\<forall>k. a < k \<and> k < i \<longrightarrow> key (data ! k) \<le> key (data ! a)"
    and "\<forall>k. j1 \<le> k \<and> k < b \<longrightarrow> key (data ! a) < key (data ! k)"
    and "partitionEqual_loop (by_key key) data a i j1 = (data', r)"
  shows "perm_on data data' (Suc a) b \<and> a < r \<and> r \<le> b
    \<and> (\<forall>k. a < k \<and> k < r \<longrightarrow> key (data' ! k) \<le> key (data ! a))
    \<and> (\<forall>k. r \<le> k \<and> k < b \<longrightarrow> key (data ! a) < key (data' ! k))"
  using assms
proof (induction "by_key key" data a i j1 arbitrary: data' r rule: partitionEqual_loop.induct)
  case (1 data a i j1)
  define i' where "i' = partitionEqual_scan_left (by_key key) data a i j1"
  define j1' where "j1' = partitionEqual_scan_right (by_key key) data a i' j1"
  have L: "i \<le> i'" "i' \<le> j1"
    "\<And>k. i \<le> k \<Longrightarrow> k < i' \<Longrightarrow> key (data ! k) \<le> key (data ! a)"
    "i' < j1 \<Longrightarrow> key (data ! a) < key (data ! i')"
    using partitionEqual_scan_left_spec[OF "1.prems"(2), of key data a] unfolding i'_def by blast+
  have R: "i' \<le> j1'" "j1' \<le> j1"
    "\<And>k. j1' \<le> k \<Longrightarrow> k < j1 \<Longrightarrow> key (data ! a) < key (data ! k)"
    "i' < j1' \<Longrightarrow> \<exists>t. j1' = Suc t \<and> key (data ! t) \<le> key (data ! a)"
    using partitionEqual_scan_right_spec[OF L(2), of key data a] unfolding j1'_def by blast+
  have small: "key (data ! k) \<le> key (data ! a)" if "a < k" "k < i'" for k
    using "1.prems"(5) L(3)[of k] that by (cases "k < i") auto
  have large: "key (data ! a) < key (data ! k)" if "j1' \<le> k" "k < b" for k
    using "1.prems"(6) R(3)[of k] that by (cases "k < j1") auto
  show ?case
  proof (cases "i' \<ge> j1'")
    case True
    then have res: "data' = data" "r = i'"
      using "1.prems"(7) by (subst (asm) partitionEqual_loop.simps, simp add: i'_def j1'_def Let_def)+
    have "i' = j1'" using True R(1) by simp
    then show ?thesis
      unfolding res using small large "1.prems"(1,3) L(1) R(2) by auto
  next
    case False
    then obtain t where t: "j1' = Suc t" "key (data ! t) \<le> key (data ! a)"
      using R(4) by auto
    have ia: "key (data ! a) < key (data ! i')" using L(4) False R(2) by simp
    have it: "i' < t" using False t ia by (cases "i' = t") auto
    define d where "d = Swap data i' (j1' - 1)"
    have dt: "d = Swap data i' t" by (simp add: d_def t(1))
    have eq: "partitionEqual_loop (by_key key) d a (i' + 1) (j1' - 1) = (data', r)"
      using "1.prems"(7) False
      by (subst (asm) partitionEqual_loop.simps) (simp add: i'_def[symmetric] j1'_def[symmetric] Let_def d_def)
    have bounds: "i' < length data" "t < length data" "a < i'" "t < b"
      using it t(1) R(2) "1.prems"(1,3,4) L(1) by simp_all
    have nth: "d ! k = (if k = t then data ! i' else if k = i' then data ! t else data ! k)" for k
      unfolding dt using bounds by (simp add: nth_Swap)
    have sw: "perm_on data d (Suc a) b"
      unfolding dt using bounds it "1.prems"(4) by (intro perm_on_Swap) simp_all
    have IH: "perm_on d data' (Suc a) b \<and> a < r \<and> r \<le> b
      \<and> (\<forall>k. a < k \<and> k < r \<longrightarrow> key (data' ! k) \<le> key (d ! a))
      \<and> (\<forall>k. r \<le> k \<and> k < b \<longrightarrow> key (d ! a) < key (data' ! k))"
      unfolding d_def
    proof (rule "1.hyps"[OF i'_def j1'_def])
      show "\<not> j1' \<le> i'" using False by simp
      show "partitionEqual_loop (by_key key) (Swap data i' (j1' - 1)) a (i' + 1) (j1' - 1) = (data', r)"
        using eq unfolding d_def .
      show "a < i' + 1" using bounds by simp
      show "i' + 1 \<le> j1' - 1" using it t(1) by simp
      show "j1' - 1 \<le> b" using bounds t(1) by simp
      show "b \<le> length (Swap data i' (j1' - 1))" using "1.prems"(4) by simp
      have "\<forall>k. a < k \<and> k < i' + 1 \<longrightarrow> key (d ! k) \<le> key (d ! a)"
        unfolding nth using small t(2) bounds it by auto
      then show "\<forall>k. a < k \<and> k < i' + 1 \<longrightarrow>
        key (Swap data i' (j1' - 1) ! k) \<le> key (Swap data i' (j1' - 1) ! a)"
        unfolding d_def .
      have "\<forall>k. j1' - 1 \<le> k \<and> k < b \<longrightarrow> key (d ! a) < key (d ! k)"
        unfolding nth using large ia bounds it t(1) by auto
      then show "\<forall>k. j1' - 1 \<le> k \<and> k < b \<longrightarrow>
        key (Swap data i' (j1' - 1) ! a) < key (Swap data i' (j1' - 1) ! k)"
        unfolding d_def .
    qed
    have da: "d ! a = data ! a" unfolding nth using bounds it by simp
    show ?thesis
      using IH sw perm_on_trans unfolding da by blast
  qed
qed

lemma partitionEqual_func_correct:
  assumes "a \<le> pivot" and "pivot < b" and "b \<le> length data"
    and "partitionEqual_func (by_key key) data a b pivot = (data', mid)"
  shows "perm_on data data' a b \<and> a < mid \<and> mid \<le> b
    \<and> (\<forall>k. a \<le> k \<and> k < mid \<longrightarrow> key (data' ! k) \<le> key (data ! pivot))
    \<and> (\<forall>k. mid \<le> k \<and> k < b \<longrightarrow> key (data ! pivot) < key (data' ! k))"
proof -
  define d0 where "d0 = Swap data a pivot"
  have len: "a < length data" "pivot < length data" "a < b" using assms(1-3) by simp_all
  have len0: "length d0 = length data" by (simp add: d0_def)
  have nth0: "d0 ! k = (if k = pivot then data ! a else if k = a then data ! pivot else data ! k)" for k
    unfolding d0_def using len by (simp add: nth_Swap)
  have p0: "perm_on data d0 a b"
    unfolding d0_def using assms(1-3) by (intro perm_on_Swap) simp_all
  have d0a: "d0 ! a = data ! pivot" unfolding nth0 by simp
  have loop: "partitionEqual_loop (by_key key) d0 a (a + 1) b = (data', mid)"
    using assms(4) unfolding partitionEqual_func_def Let_def d0_def .
  have P: "perm_on d0 data' (Suc a) b \<and> a < mid \<and> mid \<le> b
    \<and> (\<forall>k. a < k \<and> k < mid \<longrightarrow> key (data' ! k) \<le> key (d0 ! a))
    \<and> (\<forall>k. mid \<le> k \<and> k < b \<longrightarrow> key (d0 ! a) < key (data' ! k))"
  proof (rule partitionEqual_loop_correct[OF _ _ _ _ _ _ loop])
    show "a < a + 1" by simp
    show "a + 1 \<le> b" using len by simp
    show "b \<le> b" by simp
    show "b \<le> length d0" using assms(3) len0 by simp
    show "\<forall>k. a < k \<and> k < a + 1 \<longrightarrow> key (d0 ! k) \<le> key (d0 ! a)" by auto
    show "\<forall>k. b \<le> k \<and> k < b \<longrightarrow> key (d0 ! a) < key (d0 ! k)" by auto
  qed
  have da: "data' ! a = d0 ! a"
    using P perm_on_outside[of d0 data' "Suc a" b a] len len0 by simp
  have "key (data' ! k) \<le> key (d0 ! a)" if "a \<le> k" "k < mid" for k
    using P da that by (cases "k = a") auto
  moreover have "perm_on data data' a b"
    using p0 P perm_on_mono[of d0 data' "Suc a" b a b] perm_on_trans by (metis Suc_leD le_refl)
  ultimately show ?thesis
    using P unfolding d0a by blast
qed

text \<open>Partial insertion sort. The loop that shifts the smaller element to the left runs
  down to index 1, whatever \<open>a\<close> is; it stops at \<open>a\<close> because no key before \<open>a\<close> exceeds a
  key of the range.\<close>

lemma shift_left_inner: "shift_left lt data j = insertionSort_inner lt data 0 j"
proof (induction lt data j rule: shift_left.induct)
  case (1 lt data j)
  show ?case
  proof (cases "j \<ge> 1 \<and> Less lt data j (j - 1)")
    case True
    then have "shift_left lt data j = shift_left lt (Swap data j (j - 1)) (j - 1)"
      by (subst shift_left.simps) simp
    also have "\<dots> = insertionSort_inner lt (Swap data j (j - 1)) 0 (j - 1)"
      using True by (intro "1.IH") simp_all
    also have "\<dots> = insertionSort_inner lt data 0 j"
      using True by (subst (2) insertionSort_inner.simps) auto
    finally show ?thesis .
  next
    case False
    then have "shift_left lt data j = data"
      by (subst shift_left.simps) auto
    moreover have "insertionSort_inner lt data 0 j = data"
      using False by (subst insertionSort_inner.simps) auto
    ultimately show ?thesis by simp
  qed
qed

lemma insertionSort_inner_lower:
  assumes "a \<le> j" and "j < length data"
    and "\<forall>i k. i < a \<and> a \<le> k \<and> k \<le> j \<longrightarrow> key (data ! i) \<le> key (data ! k)"
  shows "insertionSort_inner (by_key key) data 0 j = insertionSort_inner (by_key key) data a j"
  using assms
proof (induction j arbitrary: data)
  case 0
  then show ?case by simp
next
  case (Suc j)
  show ?case
  proof (cases "a = Suc j")
    case True
    have "key (data ! j) \<le> key (data ! Suc j)"
      using Suc.prems(3) True by auto
    then have "insertionSort_inner (by_key key) data 0 (Suc j) = data"
      by (subst insertionSort_inner.simps) auto
    moreover have "insertionSort_inner (by_key key) data a (Suc j) = data"
      using True by (subst insertionSort_inner.simps) auto
    ultimately show ?thesis by simp
  next
    case False
    then have aj: "a \<le> j" using Suc.prems(1) by simp
    show ?thesis
    proof (cases "key (data ! Suc j) < key (data ! j)")
      case lt: True
      define d where "d = Swap data (Suc j) j"
      have nth: "d ! k = (if k = j then data ! Suc j else if k = Suc j then data ! j else data ! k)" for k
        unfolding d_def using Suc.prems(2) by (simp add: nth_Swap)
      have "insertionSort_inner (by_key key) d 0 j = insertionSort_inner (by_key key) d a j"
      proof (rule Suc.IH[OF aj])
        show "j < length d" using Suc.prems(2) by (simp add: d_def)
        show "\<forall>i k. i < a \<and> a \<le> k \<and> k \<le> j \<longrightarrow> key (d ! i) \<le> key (d ! k)"
          unfolding nth using Suc.prems(3) aj by auto
      qed
      moreover have "insertionSort_inner (by_key key) data 0 (Suc j) = insertionSort_inner (by_key key) d 0 j"
        using lt unfolding d_def by (subst insertionSort_inner.simps) auto
      moreover have "insertionSort_inner (by_key key) data a (Suc j) = insertionSort_inner (by_key key) d a j"
        using lt aj unfolding d_def by (subst insertionSort_inner.simps) auto
      ultimately show ?thesis by simp
    next
      case False
      then have "insertionSort_inner (by_key key) data 0 (Suc j) = data"
        by (subst insertionSort_inner.simps) auto
      moreover have "insertionSort_inner (by_key key) data a (Suc j) = data"
        using False by (subst insertionSort_inner.simps) auto
      ultimately show ?thesis by simp
    qed
  qed
qed

lemma shift_left_correct:
  assumes "a \<le> t" and "t < b" and "b \<le> length data"
    and "below_le key data a b"
    and "range_sorted key data a t"
  shows "perm_on data (shift_left (by_key key) data t) a (Suc t)
    \<and> range_sorted key (shift_left (by_key key) data t) a (Suc t)"
proof -
  have "insertionSort_inner (by_key key) data 0 t = insertionSort_inner (by_key key) data a t"
  proof (rule insertionSort_inner_lower[OF assms(1)])
    show "t < length data" using assms(2,3) by simp
    show "\<forall>i k. i < a \<and> a \<le> k \<and> k \<le> t \<longrightarrow> key (data ! i) \<le> key (data ! k)"
      using assms(4,2) unfolding below_le_def by auto
  qed
  then have eq: "shift_left (by_key key) data t = insertionSort_inner (by_key key) data a t"
    by (simp add: shift_left_inner)
  show ?thesis
    unfolding eq
  proof (rule insertionSort_inner_correct[OF assms(1)])
    show "t \<le> t" by simp
    show "t < length data" using assms(2,3) by simp
    show "\<forall>p q. a \<le> p \<and> p \<le> q \<and> q \<le> t \<and> p \<noteq> t \<and> q \<noteq> t \<longrightarrow> key (data ! p) \<le> key (data ! q)"
      using assms(5) unfolding range_sorted_def by auto
    show "\<forall>q. t < q \<and> q \<le> t \<longrightarrow> key (data ! t) \<le> key (data ! q)" by auto
  qed
qed

lemma shift_right_perm:
  assumes "0 < j" and "b \<le> length data"
  shows "perm_on data (shift_right lt data j b) (j - 1) b"
  using assms
proof (induction lt data j b rule: shift_right.induct)
  case (1 lt data j b)
  show ?case
  proof (cases "j < b \<and> Less lt data j (j - 1)")
    case True
    define d where "d = Swap data j (j - 1)"
    have eq: "shift_right lt data j b = shift_right lt d (j + 1) b"
      using True unfolding d_def by (subst shift_right.simps) simp
    have sw: "perm_on data d (j - 1) b"
      unfolding d_def using True "1.prems" by (intro perm_on_Swap) auto
    have "perm_on d (shift_right lt d (j + 1) b) (j + 1 - 1) b"
      unfolding d_def using True "1.prems" by (intro "1.IH") simp_all
    then have "perm_on d (shift_right lt d (j + 1) b) (j - 1) b"
      by (rule perm_on_mono) simp_all
    then show ?thesis unfolding eq using sw perm_on_trans by blast
  next
    case False
    then have "shift_right lt data j b = data"
      by (subst shift_right.simps) auto
    then show ?thesis by simp
  qed
qed

lemma range_sorted_snoc:
  assumes "range_sorted key data a i" and "a < i" and "key (data ! (i - 1)) \<le> key (data ! i)"
  shows "range_sorted key data a (Suc i)"
  unfolding range_sorted_def
proof (intro allI impI)
  fix p q assume pq: "a \<le> p \<and> p \<le> q \<and> q < Suc i"
  show "key (data ! p) \<le> key (data ! q)"
  proof (cases "q = i")
    case True
    show ?thesis
    proof (cases "p = i")
      case True
      with \<open>q = i\<close> show ?thesis by simp
    next
      case False
      then have "key (data ! p) \<le> key (data ! (i - 1))"
        using assms(1,2) pq True unfolding range_sorted_def by auto
      then show ?thesis using assms(3) True by simp
    qed
  next
    case False
    then show ?thesis using assms(1) pq unfolding range_sorted_def by auto
  qed
qed

lemma partialInsertionSort_advance_spec:
  assumes "a < i" and "i \<le> b" and "range_sorted key data a i"
  shows "i \<le> partialInsertionSort_advance (by_key key) data i b
    \<and> partialInsertionSort_advance (by_key key) data i b \<le> b
    \<and> range_sorted key data a (partialInsertionSort_advance (by_key key) data i b)
    \<and> (partialInsertionSort_advance (by_key key) data i b < b \<longrightarrow>
         key (data ! partialInsertionSort_advance (by_key key) data i b)
           < key (data ! (partialInsertionSort_advance (by_key key) data i b - 1)))"
  using assms
proof (induction "by_key key" data i b rule: partialInsertionSort_advance.induct)
  case (1 data i b)
  show ?case
  proof (cases "i < b \<and> \<not> key (data ! i) < key (data ! (i - 1))")
    case True
    define r where "r = partialInsertionSort_advance (by_key key) data (i + 1) b"
    have eq: "partialInsertionSort_advance (by_key key) data i b = r"
      using True unfolding r_def by (subst partialInsertionSort_advance.simps) simp
    have "range_sorted key data a (Suc i)"
      using "1.prems" True by (intro range_sorted_snoc) auto
    then have "i + 1 \<le> r \<and> r \<le> b \<and> range_sorted key data a r
      \<and> (r < b \<longrightarrow> key (data ! r) < key (data ! (r - 1)))"
      unfolding r_def using True "1.prems" by (intro "1.hyps") simp_all
    then show ?thesis unfolding eq by auto
  next
    case False
    have eq: "partialInsertionSort_advance (by_key key) data i b = i"
      using False by (subst partialInsertionSort_advance.simps) auto
    show ?thesis unfolding eq using False "1.prems" by auto
  qed
qed

lemma range_sorted_single: "range_sorted key data a (Suc a)"
  unfolding range_sorted_def
proof (intro allI impI)
  fix i j assume "a \<le> i \<and> i \<le> j \<and> j < Suc a"
  then have "i = j" by simp
  then show "key (data ! i) \<le> key (data ! j)" by simp
qed

lemma partialInsertionSort_loop_correct:
  assumes "a < i" and "i \<le> b" and "b \<le> length data"
    and "range_sorted key data a i" and "below_le key data a b"
    and "partialInsertionSort_loop (by_key key) data a b i j = (data', srt)"
  shows "perm_on data data' a b \<and> (srt \<longrightarrow> range_sorted key data' a b)"
  using assms
proof (induction "by_key key" data a b i j arbitrary: data' srt rule: partialInsertionSort_loop.induct)
  case (1 data a b i j)
  show ?case
  proof (cases "j < maxSteps")
    case False
    then have "data' = data" "srt = False"
      using "1.prems"(6) by (subst (asm) partialInsertionSort_loop.simps, simp)+
    then show ?thesis by simp
  next
    case jlt: True
    define i' where "i' = partialInsertionSort_advance (by_key key) data i b"
    have A: "i \<le> i'" "i' \<le> b" "range_sorted key data a i'"
      "i' < b \<Longrightarrow> key (data ! i') < key (data ! (i' - 1))"
      using partialInsertionSort_advance_spec[OF "1.prems"(1,2,4)] unfolding i'_def by blast+
    show ?thesis
    proof (cases "i' = b")
      case True
      then have "data' = data" "srt = True"
        using "1.prems"(6) jlt
        by (subst (asm) partialInsertionSort_loop.simps, simp add: i'_def[symmetric] Let_def)+
      then show ?thesis using A(3) True by simp
    next
      case ne: False
      show ?thesis
      proof (cases "b - a < shortestShifting")
        case True
        then have "data' = data" "srt = False"
          using "1.prems"(6) jlt ne
          by (subst (asm) partialInsertionSort_loop.simps, simp add: i'_def[symmetric] Let_def)+
        then show ?thesis by simp
      next
        case nshort: False
        define d1 where "d1 = Swap data i' (i' - 1)"
        define d2 where "d2 = (if i' - a \<ge> 2 then shift_left (by_key key) d1 (i' - 1) else d1)"
        define d3 where "d3 = (if b - i' \<ge> 2 then shift_right (by_key key) d2 (i' + 1) b else d2)"
        obtain t where t: "i' = Suc t" using A(1) "1.prems"(1) by (cases i') auto
        have bounds: "a \<le> t" "t < b" "i' < b" "i' < length data" "t < length data"
          using t A(1,2) ne "1.prems"(1,3) by simp_all
        have "partialInsertionSort_loop (by_key key) data a b i j
            = partialInsertionSort_loop (by_key key) d3 a b i' (j + 1)"
          apply (subst partialInsertionSort_loop.simps)
          unfolding Let_def i'_def[symmetric] d1_def[symmetric] d2_def[symmetric] d3_def[symmetric]
          using jlt ne nshort by simp
        then have eq: "partialInsertionSort_loop (by_key key) d3 a b i' (j + 1) = (data', srt)"
          using "1.prems"(6) by simp
        have d1t: "d1 = Swap data i' t" by (simp add: d1_def t)
        have nth1: "d1 ! k = (if k = t then data ! i' else if k = i' then data ! t else data ! k)" for k
          unfolding d1t using bounds by (simp add: nth_Swap)
        have p1: "perm_on data d1 a b"
          unfolding d1t using bounds t "1.prems"(3) by (intro perm_on_Swap) simp_all
        have len1: "length d1 = length data" by (simp add: d1_def)
        have bl1: "below_le key d1 a b"
          by (rule below_le_perm_on[OF "1.prems"(5) p1 _ _ "1.prems"(3)]) simp_all
        have rs1: "range_sorted key d1 a t"
          using A(3) t unfolding range_sorted_def nth1 by auto
        have S2: "perm_on d1 d2 a i' \<and> range_sorted key d2 a i'"
        proof (cases "i' - a \<ge> 2")
          case True
          then have "d2 = shift_left (by_key key) d1 t" by (simp add: d2_def t)
          moreover have "perm_on d1 (shift_left (by_key key) d1 t) a (Suc t)
            \<and> range_sorted key (shift_left (by_key key) d1 t) a (Suc t)"
            using bounds len1 "1.prems"(3) bl1 rs1 by (intro shift_left_correct[where b = b]) simp_all
          ultimately show ?thesis by (simp add: t)
        next
          case False
          have ta: "t = a" using t bounds False by linarith
          have dd: "d2 = d1" using False by (simp add: d2_def)
          have "range_sorted key d1 a (Suc a)" by (rule range_sorted_single)
          then show ?thesis unfolding dd t ta by simp
        qed
        have len2: "length d2 = length data" using S2 len1 perm_on_length by metis
        have p2: "perm_on d1 d2 a b"
          using S2 bounds by (auto intro: perm_on_mono[where a' = a and b' = i'])
        have p3: "perm_on d2 d3 i' b"
        proof (cases "b - i' \<ge> 2")
          case True
          then have "d3 = shift_right (by_key key) d2 (i' + 1) b" by (simp add: d3_def)
          moreover have "perm_on d2 (shift_right (by_key key) d2 (i' + 1) b) (i' + 1 - 1) b"
            using "1.prems"(3) len2 by (intro shift_right_perm) simp_all
          ultimately show ?thesis by simp
        next
          case False
          then show ?thesis by (simp add: d3_def)
        qed
        have len3: "length d3 = length data" using p3 len2 perm_on_length by metis
        have p03: "perm_on data d3 a b"
        proof -
          have "perm_on d2 d3 a b"
            using A(1) "1.prems"(1) by (intro perm_on_mono[OF p3]) simp_all
          then show ?thesis using p1 p2 perm_on_trans by blast
        qed
        have rs3: "range_sorted key d3 a i'"
          unfolding range_sorted_def
        proof (intro allI impI)
          fix p q assume pq: "a \<le> p \<and> p \<le> q \<and> q < i'"
          have "d3 ! p = d2 ! p" "d3 ! q = d2 ! q"
            using perm_on_outside[OF p3, of p] perm_on_outside[OF p3, of q] pq bounds len2 by simp_all
          then show "key (d3 ! p) \<le> key (d3 ! q)"
            using S2 pq unfolding range_sorted_def by simp
        qed
        have bl3: "below_le key d3 a b"
          by (rule below_le_perm_on[OF "1.prems"(5) p03 _ _ "1.prems"(3)]) simp_all
        have "perm_on d3 data' a b \<and> (srt \<longrightarrow> range_sorted key data' a b)"
          using eq rs3 bl3 len3 "1.prems"(3) A(1,2) "1.prems"(1)
          by (intro "1.hyps"[OF jlt i'_def ne nshort d1_def d2_def d3_def]) simp_all
        then show ?thesis using p03 perm_on_trans by blast
      qed
    qed
  qed
qed

lemma partialInsertionSort_func_correct:
  assumes "a < b" and "b \<le> length data" and "below_le key data a b"
    and "partialInsertionSort_func (by_key key) data a b = (data', srt)"
  shows "perm_on data data' a b \<and> (srt \<longrightarrow> range_sorted key data' a b)"
proof (rule partialInsertionSort_loop_correct)
  show "a < a + 1" by simp
  show "a + 1 \<le> b" using assms(1) by simp
  show "b \<le> length data" by (rule assms(2))
  show "range_sorted key data a (a + 1)" using range_sorted_single[of key data a] by simp
  show "below_le key data a b" by (rule assms(3))
  show "partialInsertionSort_loop (by_key key) data a b (a + 1) 0 = (data', srt)"
    using assms(4) by (simp add: partialInsertionSort_func_def)
qed

text \<open>Pattern breaking swaps inside the range.\<close>

lemma bits_Len_bound: "0 < n \<Longrightarrow> 2 ^ bits_Len n \<le> 2 * n"
proof (induction n rule: bits_Len.induct)
  case (1 n)
  show ?case
  proof (cases "n div 2 = 0")
    case True
    then have "bits_Len (n div 2) = 0" by (simp add: bits_Len.simps)
    then have "bits_Len n = 1" using "1.prems" by (subst bits_Len.simps) simp
    then show ?thesis using "1.prems" by simp
  next
    case False
    then have "2 ^ bits_Len (n div 2) \<le> 2 * (n div 2)"
      using "1.prems" by (intro "1.IH") simp_all
    moreover have "bits_Len n = Suc (bits_Len (n div 2))"
      using "1.prems" by (subst bits_Len.simps) simp
    ultimately show ?thesis by simp
  qed
qed

lemma masked_less: "unat (and (w :: 64 word) (push_bit k 1 - 1)) < 2 ^ k"
proof -
  have "and w (push_bit k 1 - 1) = take_bit k w"
    by (simp add: take_bit_eq_mask mask_eq_exp_minus_1 push_bit_of_1)
  then show ?thesis
    by (simp add: unsigned_take_bit_eq)
qed

lemma breakPatterns_loop_perm:
  assumes "a + len \<le> b" and "b \<le> length data" and "0 < len"
    and "a \<le> idx + i" and "idx + i + n \<le> b"
    and "\<forall>w. unat (and w (modulus - 1)) < 2 * len"
  shows "perm_on data (breakPatterns_loop data a len random modulus idx i n) a b"
  using assms
proof (induction n arbitrary: data random i)
  case 0
  then show ?case by simp
next
  case (Suc n)
  define r where "r = xorshift_Next random"
  define other where "other = unat (and r (modulus - 1))"
  define other' where "other' = (if other \<ge> len then other - len else other)"
  define d where "d = Swap data (idx + i) (a + other')"
  have "other < 2 * len" using Suc.prems(6) by (simp add: other_def)
  then have o: "other' < len" by (auto simp: other'_def)
  have sw: "perm_on data d a b"
    unfolding d_def using Suc.prems o by (intro perm_on_Swap) simp_all
  have "perm_on d (breakPatterns_loop d a len r modulus idx (i + 1) n) a b"
    using Suc.prems by (intro Suc.IH) (simp_all add: d_def)
  moreover have "breakPatterns_loop data a len random modulus idx i (Suc n)
      = breakPatterns_loop d a len r modulus idx (i + 1) n"
    by (simp add: Let_def r_def other_def other'_def d_def)
  ultimately show ?case using sw perm_on_trans by metis
qed

lemma breakPatterns_func_perm:
  assumes "a \<le> b" and "b \<le> length data"
  shows "perm_on data (breakPatterns_func data a b) a b"
proof (cases "b - a \<ge> 8")
  case False
  then show ?thesis by (simp add: breakPatterns_func_def Let_def)
next
  case True
  define len where "len = b - a"
  define idx where "idx = a + (len div 4) * 2 - 1"
  have "perm_on data (breakPatterns_loop data a len (word_of_nat len) (nextPowerOfTwo len) idx 0 3) a b"
  proof (rule breakPatterns_loop_perm)
    show "a + len \<le> b" using assms(1) by (simp add: len_def)
    show "b \<le> length data" by (rule assms(2))
    show "0 < len" using True by (simp add: len_def)
    show "a \<le> idx + 0" using True unfolding idx_def len_def by simp
    show "idx + 0 + 3 \<le> b" using True assms(1) unfolding idx_def len_def by simp
    show "\<forall>w. unat (and w (nextPowerOfTwo len - 1)) < 2 * len"
    proof
      fix w :: "64 word"
      have "unat (and w (nextPowerOfTwo len - 1)) < 2 ^ bits_Len len"
        unfolding nextPowerOfTwo_def by (rule masked_less)
      also have "\<dots> \<le> 2 * len" using True by (intro bits_Len_bound) (simp add: len_def)
      finally show "unat (and w (nextPowerOfTwo len - 1)) < 2 * len" .
    qed
  qed
  then show ?thesis
    using True by (simp add: breakPatterns_func_def Let_def len_def idx_def)
qed

lemma reverseRange_loop_perm:
  assumes "a \<le> i" and "j1 \<le> b" and "b \<le> length data"
  shows "perm_on data (reverseRange_loop data i j1) a b"
  using assms
proof (induction data i j1 rule: reverseRange_loop.induct)
  case (1 data i j1)
  show ?case
  proof (cases "i + 1 < j1")
    case True
    define d where "d = Swap data i (j1 - 1)"
    have eq: "reverseRange_loop data i j1 = reverseRange_loop d (i + 1) (j1 - 1)"
      using True unfolding d_def by (subst reverseRange_loop.simps) simp
    have sw: "perm_on data d a b"
      unfolding d_def using True "1.prems" by (intro perm_on_Swap) auto
    have "perm_on d (reverseRange_loop d (i + 1) (j1 - 1)) a b"
      unfolding d_def using True "1.prems" by (intro "1.IH") simp_all
    then show ?thesis unfolding eq using sw perm_on_trans by blast
  next
    case False
    then have "reverseRange_loop data i j1 = data"
      by (subst reverseRange_loop.simps) auto
    then show ?thesis by simp
  qed
qed

lemma reverseRange_func_perm:
  assumes "b \<le> length data"
  shows "perm_on data (reverseRange_func data a b) a b"
  unfolding reverseRange_func_def using assms by (intro reverseRange_loop_perm) simp_all

text \<open>The pivot that is chosen lies in the range.\<close>

lemma order2_func_mem:
  assumes "order2_func lt data a b s = (a', b', s')"
  shows "(a' = a \<and> b' = b) \<or> (a' = b \<and> b' = a)"
  using assms by (auto simp: order2_func_def split: if_splits)

lemma median_func_mem:
  assumes "median_func lt data a b c s = (m, s')"
  shows "m = a \<or> m = b \<or> m = c"
proof -
  obtain a1 b1 s1 where o1: "order2_func lt data a b s = (a1, b1, s1)"
    by (cases "order2_func lt data a b s") auto
  obtain b2 c2 s2 where o2: "order2_func lt data b1 c s1 = (b2, c2, s2)"
    by (cases "order2_func lt data b1 c s1") auto
  obtain a3 b3 s3 where o3: "order2_func lt data a1 b2 s2 = (a3, b3, s3)"
    by (cases "order2_func lt data a1 b2 s2") auto
  have "m = b3" using assms by (simp add: median_func_def o1 o2 o3)
  then show ?thesis
    using order2_func_mem[OF o1] order2_func_mem[OF o2] order2_func_mem[OF o3] by auto
qed

lemma medianAdjacent_func_mem:
  assumes "medianAdjacent_func lt data a s = (m, s')"
  shows "m = a - 1 \<or> m = a \<or> m = a + 1"
  using median_func_mem[of lt data "a - 1" a "a + 1" s m s'] assms
  by (simp add: medianAdjacent_func_def)

lemma choosePivot_func_fst:
  "fst (choosePivot_func lt data a b) =
     (let l = b - a; q = l div 4 in
      if l \<ge> 8 then
        (if l \<ge> shortestNinther then
           (let r1 = medianAdjacent_func lt data (a + q * 1) 0;
                r2 = medianAdjacent_func lt data (a + q * 2) (snd r1);
                r3 = medianAdjacent_func lt data (a + q * 3) (snd r2)
            in fst (median_func lt data (fst r1) (fst r2) (fst r3) (snd r3)))
         else fst (median_func lt data (a + q * 1) (a + q * 2) (a + q * 3) 0))
      else a + q * 2)"
proof (cases "8 \<le> b - a")
  case False
  then show ?thesis
    by (simp add: choosePivot_func_def Let_def if_distrib[of fst])
next
  case l8: True
  show ?thesis
  proof (cases "shortestNinther \<le> b - a")
    case True
    then show ?thesis
      using l8 by (simp add: choosePivot_func_def Let_def case_prod_beta if_distrib[of fst])
  next
    case False
    then show ?thesis
      using l8 by (simp add: choosePivot_func_def Let_def case_prod_beta if_distrib[of fst])
  qed
qed

lemma choosePivot_func_bounds:
  assumes "a < b" and "choosePivot_func lt data a b = (pivot, hint)"
  shows "a \<le> pivot \<and> pivot < b"
proof -
  define l where "l = b - a"
  define q where "q = l div 4"
  have l: "0 < l" "b = a + l" using assms(1) by (simp_all add: l_def)
  have p: "pivot = fst (choosePivot_func lt data a b)" using assms(2) by simp
  show ?thesis
  proof (cases "l \<ge> 8")
    case False
    then have "pivot = a + q * 2"
      unfolding p choosePivot_func_fst Let_def l_def[symmetric] q_def[symmetric] by simp
    then show ?thesis using l False unfolding q_def by auto
  next
    case l8: True
    show ?thesis
    proof (cases "l \<ge> shortestNinther")
      case False
      obtain m s where med: "median_func lt data (a + q * 1) (a + q * 2) (a + q * 3) 0 = (m, s)"
        by (cases "median_func lt data (a + q * 1) (a + q * 2) (a + q * 3) 0") auto
      have "pivot = m"
        unfolding p choosePivot_func_fst Let_def l_def[symmetric] q_def[symmetric]
        using l8 False med by simp
      then show ?thesis
        using median_func_mem[OF med] l l8 unfolding q_def by auto
    next
      case True
      obtain i1 s1 where m1: "medianAdjacent_func lt data (a + q * 1) 0 = (i1, s1)"
        by (cases "medianAdjacent_func lt data (a + q * 1) 0") auto
      obtain j2 s2 where m2: "medianAdjacent_func lt data (a + q * 2) s1 = (j2, s2)"
        by (cases "medianAdjacent_func lt data (a + q * 2) s1") auto
      obtain k3 s3 where m3: "medianAdjacent_func lt data (a + q * 3) s2 = (k3, s3)"
        by (cases "medianAdjacent_func lt data (a + q * 3) s2") auto
      obtain m s where med: "median_func lt data i1 j2 k3 s3 = (m, s)"
        by (cases "median_func lt data i1 j2 k3 s3") auto
      have "pivot = m"
        unfolding p choosePivot_func_fst Let_def l_def[symmetric] q_def[symmetric]
        using l8 True by (simp only: if_True m1 m2 m3 med fst_conv snd_conv)
      moreover have l50: "50 \<le> l" using True by (simp add: shortestNinther_def)
      have q: "12 \<le> q" "3 * q + 1 < l" using l50 unfolding q_def by simp_all
      have "i1 = a + q * 1 - 1 \<or> i1 = a + q * 1 \<or> i1 = a + q * 1 + 1"
        by (rule medianAdjacent_func_mem[OF m1])
      then have b1: "a \<le> i1 \<and> i1 < b" using q l(2) by linarith
      have "j2 = a + q * 2 - 1 \<or> j2 = a + q * 2 \<or> j2 = a + q * 2 + 1"
        by (rule medianAdjacent_func_mem[OF m2])
      then have b2: "a \<le> j2 \<and> j2 < b" using q l(2) by linarith
      have "k3 = a + q * 3 - 1 \<or> k3 = a + q * 3 \<or> k3 = a + q * 3 + 1"
        by (rule medianAdjacent_func_mem[OF m3])
      then have b3: "a \<le> k3 \<and> k3 < b" using q l(2) by linarith
      have "m = i1 \<or> m = j2 \<or> m = k3" by (rule median_func_mem[OF med])
      then have "a \<le> m \<and> m < b" using b1 b2 b3 by blast
      ultimately show ?thesis by simp
    qed
  qed
qed

text \<open>The two sorted parts around the pivot make a sorted range.\<close>

lemma range_sorted_around_pivot:
  assumes "a \<le> mid" and "mid < b"
    and "range_sorted key R a mid" and "range_sorted key R (Suc mid) b"
    and "\<forall>k. a \<le> k \<and> k < mid \<longrightarrow> key (R ! k) \<le> P"
    and "key (R ! mid) = P"
    and "\<forall>k. mid < k \<and> k < b \<longrightarrow> P \<le> key (R ! k)"
  shows "range_sorted key R a b"
  unfolding range_sorted_def
proof (intro allI impI)
  fix i j assume ij: "a \<le> i \<and> i \<le> j \<and> j < b"
  consider (left) "j < mid" | (right) "mid < i" | (across) "i \<le> mid" "mid \<le> j" by linarith
  then show "key (R ! i) \<le> key (R ! j)"
  proof cases
    case left
    then show ?thesis using assms(3) ij unfolding range_sorted_def by auto
  next
    case right
    then show ?thesis using assms(4) ij unfolding range_sorted_def by auto
  next
    case across
    have "key (R ! i) \<le> P" using assms(5,6) across(1) ij by (cases "i = mid") auto
    moreover have "P \<le> key (R ! j)" using assms(6,7) across(2) ij by (cases "j = mid") auto
    ultimately show ?thesis by simp
  qed
qed

lemma below_le_mono:
  assumes "below_le key d a b" and "b' \<le> b"
  shows "below_le key d a b'"
  using assms unfolding below_le_def by auto

lemma perm_on_key_bound:
  assumes "perm_on d1 d2 a b" and "b \<le> length d1"
    and "\<forall>k. a \<le> k \<and> k < b \<longrightarrow> Q (d1 ! k)"
  shows "\<forall>k. a \<le> k \<and> k < b \<longrightarrow> Q (d2 ! k)"
  using perm_on_range_all[OF assms(1) _ _ assms(2), of a Q] assms(3) by simp

lemma pdqsort_loop_correct:
  assumes "a \<le> b" and "b \<le> length data" and "below_le key data a b"
  shows "perm_on data (pdqsort_loop (by_key key) data a b limit wb wp) a b
    \<and> range_sorted key (pdqsort_loop (by_key key) data a b limit wb wp) a b"
  using assms
proof (induction "b - a" arbitrary: data a b limit wb wp rule: less_induct)
  case less
  let ?lt = "by_key key"
  note IH = less.hyps
  note ab = less.prems(1) and len = less.prems(2) and bl = less.prems(3)
  show ?case
  proof (cases "b - a \<le> maxInsertion")
    case True
    then have "pdqsort_loop ?lt data a b limit wb wp = insertionSort_func ?lt data a b"
      by (subst pdqsort_loop.simps) (simp add: Let_def)
    then show ?thesis using insertionSort_func_correct[OF len, of key a] by simp
  next
    case big: False
    then have alb: "a < b" by (simp add: maxInsertion_def)
    show ?thesis
    proof (cases "limit = 0")
      case True
      then have "pdqsort_loop ?lt data a b limit wb wp = heapSort_func ?lt data a b"
        using big by (subst pdqsort_loop.simps) (simp add: Let_def)
      then show ?thesis using heapSort_func_correct[OF ab len, of key] by simp
    next
      case lim: False
      define t1 where "t1 = (if \<not> wb then (breakPatterns_func data a b, limit - 1) else (data, limit))"
      define d1 where "d1 = fst t1"
      define limit1 where "limit1 = snd t1"
      define t2 where "t2 = choosePivot_func ?lt d1 a b"
      define pivot0 where "pivot0 = fst t2"
      define hint0 where "hint0 = snd t2"
      define t3 where "t3 = (if hint0 = decreasingHint
               then (reverseRange_func d1 a b, (b - 1) - (pivot0 - a), increasingHint)
               else (d1, pivot0, hint0))"
      define d2 where "d2 = fst t3"
      define pivot where "pivot = fst (snd t3)"
      define hint where "hint = snd (snd t3)"
      define t4 where "t4 = (if wb \<and> wp \<and> hint = increasingHint
               then partialInsertionSort_func ?lt d2 a b
               else (d2, False))"
      define d3 where "d3 = fst t4"
      define srt where "srt = snd t4"
      define t5 where "t5 = partitionEqual_func ?lt d3 a b pivot"
      define t6 where "t6 = partition_func ?lt d3 a b pivot"
      define d4 where "d4 = fst t6"
      define mid where "mid = fst (snd t6)"
      define ap where "ap = snd (snd t6)"
      have eq: "pdqsort_loop ?lt data a b limit wb wp =
        (if srt then d3
         else if a > 0 \<and> \<not> Less ?lt d3 (a - 1) pivot then
           pdqsort_loop ?lt (fst t5) (snd t5) b limit1 wb wp
         else if mid - a < b - mid then
           pdqsort_loop ?lt (pdqsort_loop ?lt d4 a mid limit1 True True)
             (mid + 1) b limit1 (mid - a \<ge> (b - a) div 8) ap
         else
           pdqsort_loop ?lt (pdqsort_loop ?lt d4 (mid + 1) b limit1 True True)
             a mid limit1 (b - mid \<ge> (b - a) div 8) ap)"
        apply (subst pdqsort_loop.simps)
        unfolding Let_def case_prod_beta
        unfolding t1_def[symmetric] d1_def[symmetric] limit1_def[symmetric]
          t2_def[symmetric] pivot0_def[symmetric] hint0_def[symmetric]
          t3_def[symmetric] d2_def[symmetric] pivot_def[symmetric] hint_def[symmetric]
          t4_def[symmetric] d3_def[symmetric] srt_def[symmetric]
          t5_def[symmetric] t6_def[symmetric] d4_def[symmetric] mid_def[symmetric] ap_def[symmetric]
        using big lim by simp
      text \<open>The slice before the partition.\<close>
      have d1: "d1 = (if \<not> wb then breakPatterns_func data a b else data)"
        by (simp add: d1_def t1_def)
      have p1: "perm_on data d1 a b"
        unfolding d1 using breakPatterns_func_perm[OF ab len] by simp
      have len1: "length d1 = length data" using p1 by (rule perm_on_length)
      have cp: "choosePivot_func ?lt d1 a b = (pivot0, hint0)"
        by (simp add: pivot0_def hint0_def t2_def)
      have piv0: "a \<le> pivot0" "pivot0 < b"
        using choosePivot_func_bounds[OF alb cp] by simp_all
      have d2: "d2 = (if hint0 = decreasingHint then reverseRange_func d1 a b else d1)"
        by (simp add: d2_def t3_def)
      have pivot: "pivot = (if hint0 = decreasingHint then (b - 1) - (pivot0 - a) else pivot0)"
        by (simp add: pivot_def t3_def)
      have piv: "a \<le> pivot" "pivot < b"
        unfolding pivot using piv0 alb by auto
      have p2: "perm_on d1 d2 a b"
        unfolding d2 using reverseRange_func_perm[of b d1 a] len len1 by simp
      have len2: "length d2 = length data" using p2 len1 perm_on_length by metis
      have p02: "perm_on data d2 a b" using p1 p2 by (rule perm_on_trans)
      have bl2: "below_le key d2 a b"
        by (rule below_le_perm_on[OF bl p02 _ _ len]) simp_all
      have t4: "t4 = (d3, srt)" by (simp add: d3_def srt_def)
      have P3: "perm_on d2 d3 a b \<and> (srt \<longrightarrow> range_sorted key d3 a b)"
      proof (cases "wb \<and> wp \<and> hint = increasingHint")
        case True
        then have "t4 = partialInsertionSort_func ?lt d2 a b" unfolding t4_def by simp
        then have "partialInsertionSort_func ?lt d2 a b = (d3, srt)"
          using t4 by simp
        then show ?thesis
          using alb len len2 bl2 by (intro partialInsertionSort_func_correct) simp_all
      next
        case False
        then have "t4 = (d2, False)" unfolding t4_def by auto
        then have "d3 = d2" "srt = False" by (simp_all add: d3_def srt_def)
        then show ?thesis by simp
      qed
      then have p3: "perm_on d2 d3 a b" by simp
      have len3: "length d3 = length data" using p3 len2 perm_on_length by metis
      have p03: "perm_on data d3 a b" using p02 p3 by (rule perm_on_trans)
      have bl3: "below_le key d3 a b"
        by (rule below_le_perm_on[OF bl p03 _ _ len]) simp_all
      have blen3: "b \<le> length d3" using len len3 by simp
      show ?thesis
      proof (cases srt)
        case True
        then show ?thesis using eq P3 p03 by simp
      next
        case nsrt: False
        define P where "P = key (d3 ! pivot)"
        show ?thesis
        proof (cases "a > 0 \<and> \<not> Less ?lt d3 (a - 1) pivot")
          case True
          obtain d5 m where pe: "partitionEqual_func ?lt d3 a b pivot = (d5, m)"
            by (cases "partitionEqual_func ?lt d3 a b pivot") auto
          have res: "pdqsort_loop ?lt data a b limit wb wp = pdqsort_loop ?lt d5 m b limit1 wb wp"
            using eq nsrt True pe by (simp add: t5_def)
          have E: "perm_on d3 d5 a b" "a < m" "m \<le> b"
            "\<And>k. a \<le> k \<Longrightarrow> k < m \<Longrightarrow> key (d5 ! k) \<le> P"
            "\<And>k. m \<le> k \<Longrightarrow> k < b \<Longrightarrow> P < key (d5 ! k)"
            using partitionEqual_func_correct[OF piv blen3 pe] unfolding P_def by blast+
          have len5: "length d5 = length data" using E(1) len3 perm_on_length by metis
          have blen5: "b \<le> length d5" using len len5 by simp
          have p05: "perm_on data d5 a b" using p03 E(1) by (rule perm_on_trans)
          have bl5: "below_le key d5 a b"
            by (rule below_le_perm_on[OF bl p05 _ _ len]) simp_all
          obtain a' where a': "a = Suc a'" using True by (cases a) auto
          have "d5 ! a' = d3 ! a'"
            using perm_on_outside[OF E(1), of a'] a' alb blen3 by simp
          moreover have "P \<le> key (d3 ! a')" using True a' by (simp add: P_def)
          ultimately have low: "P \<le> key (d5 ! k)" if "a \<le> k" "k < b" for k
            using bl5 that a' unfolding below_le_def by (metis lessI order_trans)
          have eqP: "key (d5 ! k) = P" if "a \<le> k" "k < m" for k
            using E(4)[OF that] low[of k] that E(3) by simp
          have bl5m: "below_le key d5 m b"
            unfolding below_le_def
          proof (intro allI impI)
            fix i j assume ij: "i < m \<and> m \<le> j \<and> j < b"
            show "key (d5 ! i) \<le> key (d5 ! j)"
            proof (cases "i < a")
              case True
              then show ?thesis using bl5 ij E(2) unfolding below_le_def by auto
            next
              case False
              then have "key (d5 ! i) = P" using eqP ij by simp
              then show ?thesis using E(5)[of j] ij by simp
            qed
          qed
          have R: "perm_on d5 (pdqsort_loop ?lt d5 m b limit1 wb wp) m b
            \<and> range_sorted key (pdqsort_loop ?lt d5 m b limit1 wb wp) m b"
            using E(2,3) alb blen5 bl5m by (intro IH) simp_all
          define R where "R = pdqsort_loop ?lt d5 m b limit1 wb wp"
          have pR: "perm_on d5 R m b" and sR: "range_sorted key R m b"
            using R by (simp_all add: R_def)
          have pR': "perm_on d5 R a b"
            by (rule perm_on_mono[OF pR]) (use E(2) in simp_all)
          have outR: "R ! k = d5 ! k" if "k < m" for k
            using perm_on_outside[OF pR, of k] that E(3) blen5 by simp
          have inR: "\<forall>k. m \<le> k \<and> k < b \<longrightarrow> P < key (R ! k)"
            using perm_on_key_bound[OF pR blen5, of "\<lambda>x. P < key x"] E(5) by simp
          have "range_sorted key R a b"
            unfolding range_sorted_def
          proof (intro allI impI)
            fix i j assume ij: "a \<le> i \<and> i \<le> j \<and> j < b"
            show "key (R ! i) \<le> key (R ! j)"
            proof (cases "m \<le> i")
              case True
              then show ?thesis using sR ij unfolding range_sorted_def by auto
            next
              case False
              then have i: "key (R ! i) = P" using outR[of i] eqP[of i] ij by simp
              show ?thesis
              proof (cases "m \<le> j")
                case True
                then show ?thesis using inR ij i by auto
              next
                case False
                then have "key (R ! j) = P" using outR[of j] eqP[of j] ij by simp
                then show ?thesis using i by simp
              qed
            qed
          qed
          moreover have "perm_on data R a b" using p05 pR' by (rule perm_on_trans)
          ultimately show ?thesis unfolding res R_def[symmetric] by simp
        next
          case npe: False
          have pf: "partition_func ?lt d3 a b pivot = (d4, mid, ap)"
            by (simp add: d4_def mid_def ap_def t6_def)
          have F: "perm_on d3 d4 a b" "a \<le> mid" "mid < b" "key (d4 ! mid) = P"
            "\<And>k. a \<le> k \<Longrightarrow> k < mid \<Longrightarrow> key (d4 ! k) < P"
            "\<And>k. mid < k \<Longrightarrow> k < b \<Longrightarrow> P \<le> key (d4 ! k)"
            using partition_func_correct[OF piv blen3 pf] unfolding P_def by blast+
          have len4: "length d4 = length data" using F(1) len3 perm_on_length by metis
          have blen4: "b \<le> length d4" using len len4 by simp
          have p04: "perm_on data d4 a b" using p03 F(1) by (rule perm_on_trans)
          have bl4: "below_le key d4 a b"
            by (rule below_le_perm_on[OF bl p04 _ _ len]) simp_all
          have bl4l: "below_le key d4 a mid"
            by (rule below_le_mono[OF bl4]) (use F(3) in simp)
          have bl4r: "below_le key d4 (Suc mid) b"
            unfolding below_le_def
          proof (intro allI impI)
            fix i j assume ij: "i < Suc mid \<and> Suc mid \<le> j \<and> j < b"
            have j: "P \<le> key (d4 ! j)" using F(6)[of j] ij by simp
            show "key (d4 ! i) \<le> key (d4 ! j)"
            proof (cases "i < a")
              case True
              then show ?thesis using bl4 ij F(2) unfolding below_le_def by auto
            next
              case False
              then have "key (d4 ! i) \<le> P"
                using F(4) F(5)[of i] ij by (cases "i = mid") auto
              then show ?thesis using j by simp
            qed
          qed
          show ?thesis
          proof (cases "mid - a < b - mid")
            case True
            define R1 where "R1 = pdqsort_loop ?lt d4 a mid limit1 True True"
            define R where "R = pdqsort_loop ?lt R1 (mid + 1) b limit1 (mid - a \<ge> (b - a) div 8) ap"
            have res: "pdqsort_loop ?lt data a b limit wb wp = R"
              using eq nsrt npe True by (auto simp: R_def R1_def)
            have S1: "perm_on d4 R1 a mid \<and> range_sorted key R1 a mid"
              unfolding R1_def using F(2,3) blen4 bl4l by (intro IH) simp_all
            then have pR1: "perm_on d4 R1 a mid" and sR1: "range_sorted key R1 a mid" by simp_all
            have lenR1: "length R1 = length data" using pR1 len4 perm_on_length by metis
            have out1: "R1 ! k = d4 ! k" if "mid \<le> k" "k < b" for k
              using perm_on_outside[OF pR1, of k] that blen4 by simp
            have midlen4: "mid \<le> length d4" using F(3) blen4 by simp
            have blR1: "below_le key R1 (Suc mid) b"
              unfolding below_le_def
            proof (intro allI impI)
              fix i j assume ij: "i < Suc mid \<and> Suc mid \<le> j \<and> j < b"
              have j: "R1 ! j = d4 ! j" using out1[of j] ij by simp
              have "\<exists>i'. i' < Suc mid \<and> R1 ! i = d4 ! i'"
              proof (cases "a \<le> i \<and> i < mid")
                case True
                then obtain i' where "a \<le> i'" "i' < mid" "R1 ! i = d4 ! i'"
                  using perm_on_range[OF pR1 midlen4, of i] by blast
                then show ?thesis by (intro exI[of _ i']) simp
              next
                case False
                then have "R1 ! i = d4 ! i"
                  using perm_on_outside[OF pR1, of i] ij blen4 by auto
                then show ?thesis using ij by blast
              qed
              then obtain i' where "i' < Suc mid" "R1 ! i = d4 ! i'" by blast
              then show "key (R1 ! i) \<le> key (R1 ! j)"
                using bl4r ij j unfolding below_le_def by auto
            qed
            have S2: "perm_on R1 R (mid + 1) b \<and> range_sorted key R (mid + 1) b"
              unfolding R_def using F(2,3) len lenR1 blR1 by (intro IH) simp_all
            then have pR: "perm_on R1 R (Suc mid) b" and sR: "range_sorted key R (Suc mid) b"
              by simp_all
            have out2: "R ! k = R1 ! k" if "k \<le> mid" for k
              using perm_on_outside[OF pR, of k] that F(3) len lenR1 by simp
            have leftR1: "\<forall>k. a \<le> k \<and> k < mid \<longrightarrow> key (R1 ! k) < P"
              using perm_on_key_bound[OF pR1, of "\<lambda>x. key x < P"] F(3,5) blen4 by simp
            have rightR1: "\<forall>k. Suc mid \<le> k \<and> k < b \<longrightarrow> P \<le> key (R1 ! k)"
              using out1 F(6) by simp
            have rightR: "\<forall>k. Suc mid \<le> k \<and> k < b \<longrightarrow> P \<le> key (R ! k)"
              using perm_on_key_bound[OF pR, of "\<lambda>x. P \<le> key x"] rightR1 len lenR1 by simp
            have "range_sorted key R a b"
            proof (rule range_sorted_around_pivot[where mid = mid and P = P])
              show "a \<le> mid" "mid < b" by (rule F(2), rule F(3))
              show "range_sorted key R a mid"
                using sR1 out2 unfolding range_sorted_def by auto
              show "range_sorted key R (Suc mid) b" by (rule sR)
              show "\<forall>k. a \<le> k \<and> k < mid \<longrightarrow> key (R ! k) \<le> P"
                using leftR1 out2 by (auto intro: less_imp_le)
              show "key (R ! mid) = P"
                using out2[of mid] out1[of mid] F(3,4) by simp
              show "\<forall>k. mid < k \<and> k < b \<longrightarrow> P \<le> key (R ! k)"
                using rightR by auto
            qed
            moreover have "perm_on data R a b"
            proof -
              have "perm_on d4 R1 a b" using pR1 by (rule perm_on_mono) (use F(3) in simp_all)
              moreover have "perm_on R1 R a b" using pR by (rule perm_on_mono) (use F(2) in simp_all)
              ultimately show ?thesis using p04 perm_on_trans by blast
            qed
            ultimately show ?thesis unfolding res by simp
          next
            case False
            define R1 where "R1 = pdqsort_loop ?lt d4 (mid + 1) b limit1 True True"
            define R where "R = pdqsort_loop ?lt R1 a mid limit1 (b - mid \<ge> (b - a) div 8) ap"
            have res: "pdqsort_loop ?lt data a b limit wb wp = R"
              using eq nsrt npe False by (auto simp: R_def R1_def)
            have S1: "perm_on d4 R1 (mid + 1) b \<and> range_sorted key R1 (mid + 1) b"
              unfolding R1_def using F(2,3) blen4 bl4r by (intro IH) simp_all
            then have pR1: "perm_on d4 R1 (Suc mid) b" and sR1: "range_sorted key R1 (Suc mid) b"
              by simp_all
            have lenR1: "length R1 = length data" using pR1 len4 perm_on_length by metis
            have out1: "R1 ! k = d4 ! k" if "k \<le> mid" for k
              using perm_on_outside[OF pR1, of k] that F(3) blen4 by simp
            have blR1: "below_le key R1 a mid"
              using bl4l out1 unfolding below_le_def by auto
            have S2: "perm_on R1 R a mid \<and> range_sorted key R a mid"
              unfolding R_def using F(2,3) len lenR1 blR1 by (intro IH) simp_all
            then have pR: "perm_on R1 R a mid" and sR: "range_sorted key R a mid"
              by simp_all
            have out2: "R ! k = R1 ! k" if "mid \<le> k" "k < b" for k
              using perm_on_outside[OF pR, of k] that len lenR1 by simp
            have leftR1: "\<forall>k. a \<le> k \<and> k < mid \<longrightarrow> key (R1 ! k) < P"
              using out1 F(5) by simp
            have midlen: "mid \<le> length R1" using F(3) len lenR1 by simp
            have leftR: "\<forall>k. a \<le> k \<and> k < mid \<longrightarrow> key (R ! k) < P"
              using perm_on_key_bound[OF pR midlen, of "\<lambda>x. key x < P"] leftR1 by simp
            have rightR1: "\<forall>k. Suc mid \<le> k \<and> k < b \<longrightarrow> P \<le> key (R1 ! k)"
              using perm_on_key_bound[OF pR1 blen4, of "\<lambda>x. P \<le> key x"] F(6) by simp
            have "range_sorted key R a b"
            proof (rule range_sorted_around_pivot[where mid = mid and P = P])
              show "a \<le> mid" "mid < b" by (rule F(2), rule F(3))
              show "range_sorted key R a mid" by (rule sR)
              show "range_sorted key R (Suc mid) b"
                using sR1 out2 unfolding range_sorted_def by auto
              show "\<forall>k. a \<le> k \<and> k < mid \<longrightarrow> key (R ! k) \<le> P"
                using leftR by (auto intro: less_imp_le)
              show "key (R ! mid) = P"
                using out2[of mid] out1[of mid] F(3,4) by simp
              show "\<forall>k. mid < k \<and> k < b \<longrightarrow> P \<le> key (R ! k)"
                using rightR1 out2 by auto
            qed
            moreover have "perm_on data R a b"
            proof -
              have "perm_on d4 R1 a b" using pR1 by (rule perm_on_mono) (use F(2) in simp_all)
              moreover have "perm_on R1 R a b" using pR by (rule perm_on_mono) (use F(3) in simp_all)
              ultimately show ?thesis using p04 perm_on_trans by blast
            qed
            ultimately show ?thesis unfolding res by simp
          qed
        qed
      qed
    qed
  qed
qed

lemma sort_Slice_correct:
  "mset (sort_Slice (by_key key) x) = mset x
   \<and> sorted (map key (sort_Slice (by_key key) x))"
proof -
  define R where "R = sort_Slice (by_key key) x"
  have R: "R = pdqsort_loop (by_key key) x 0 (length x) (bits_Len (length x)) True True"
    by (simp add: R_def sort_Slice_def pdqsort_func_def Let_def)
  have "perm_on x R 0 (length x) \<and> range_sorted key R 0 (length x)"
    unfolding R by (rule pdqsort_loop_correct) (simp_all add: below_le_def)
  then have p: "perm_on x R 0 (length x)" and s: "range_sorted key R 0 (length x)" by simp_all
  have len: "length R = length x" using p by (rule perm_on_length)
  have "sorted (map key R)"
    unfolding sorted_iff_nth_mono using s len by (auto simp: range_sorted_def)
  moreover have "mset R = mset x" using p by (rule perm_on_mset)
  ultimately show ?thesis unfolding R_def by simp
qed

lemma SortByAge_by_key: "SortByAge repos = sort_Slice (by_key LastUpdated) repos"
proof -
  have "(\<lambda>x y. Before (LastUpdated x) (LastUpdated y)) = by_key LastUpdated"
    by (intro ext) (simp add: Before_def by_key_def)
  then show ?thesis
    unfolding SortByAge_def by (rule arg_cong[where f = "\<lambda>lt. sort_Slice lt repos"])
qed

lemma SortByAgeDesc_by_key: "SortByAgeDesc repos = sort_Slice (by_key (\<lambda>r. - LastUpdated r)) repos"
proof -
  have "(\<lambda>x y. After (LastUpdated x) (LastUpdated y)) = by_key (\<lambda>r. - LastUpdated r)"
    by (intro ext) (simp add: After_def by_key_def)
  then show ?thesis
    unfolding SortByAgeDesc_def by (rule arg_cong[where f = "\<lambda>lt. sort_Slice lt repos"])
qed

text \<open>Insertion sort only swaps neighbours whose keys differ, so it keeps the elements of
  equal key in their order: short slices are sorted stably.\<close>

lemma Swap_adjacent:
  assumes "Suc i < length data"
  shows "Swap data (Suc i) i = take i data @ [data ! Suc i, data ! i] @ drop (Suc (Suc i)) data"
proof (rule nth_equalityI)
  show "length (Swap data (Suc i) i) = length (take i data @ [data ! Suc i, data ! i] @ drop (Suc (Suc i)) data)"
    using assms by simp
next
  fix k assume "k < length (Swap data (Suc i) i)"
  then have k: "k < length data" by simp
  have i: "i < length data" using assms by simp
  consider "k < i" | "k = i" | "k = Suc i" | "Suc (Suc i) \<le> k" by linarith
  then show "Swap data (Suc i) i ! k = (take i data @ [data ! Suc i, data ! i] @ drop (Suc (Suc i)) data) ! k"
  proof cases
    case 1
    then show ?thesis using assms i by (simp add: nth_Swap nth_append)
  next
    case 2
    then show ?thesis using assms i by (simp add: nth_Swap nth_append)
  next
    case 3
    then show ?thesis using assms i by (simp add: nth_Swap nth_append)
  next
    case 4
    then obtain m where m: "k = Suc (Suc i) + m" using le_Suc_ex by blast
    then show ?thesis using assms i k by (simp add: nth_Swap nth_append)
  qed
qed

lemma list_adjacent:
  assumes "Suc i < length data"
  shows "data = take i data @ [data ! i, data ! Suc i] @ drop (Suc (Suc i)) data"
  using assms by (simp add: Cons_nth_drop_Suc Suc_lessD)

lemma filter_Swap_adjacent:
  assumes "Suc i < length data" and "key (data ! Suc i) \<noteq> key (data ! i)"
  shows "filter (\<lambda>x. key x = c) (Swap data (Suc i) i) = filter (\<lambda>x. key x = c) data"
proof -
  define pre where "pre = take i data"
  define post where "post = drop (Suc (Suc i)) data"
  define x where "x = data ! i"
  define y where "y = data ! Suc i"
  have s: "Swap data (Suc i) i = pre @ [y, x] @ post"
    unfolding pre_def post_def x_def y_def by (rule Swap_adjacent[OF assms(1)])
  have d: "data = pre @ [x, y] @ post"
    unfolding pre_def post_def x_def y_def by (rule list_adjacent[OF assms(1)])
  have "key y \<noteq> key x" using assms(2) by (simp add: x_def y_def)
  then have "filter (\<lambda>x. key x = c) (pre @ [y, x] @ post) = filter (\<lambda>x. key x = c) (pre @ [x, y] @ post)"
    by auto
  moreover have "filter (\<lambda>x. key x = c) data = filter (\<lambda>x. key x = c) (pre @ [x, y] @ post)"
    by (rule arg_cong[OF d])
  ultimately show ?thesis by (simp only: s)
qed

lemma insertionSort_inner_stable:
  assumes "j < length data"
  shows "filter (\<lambda>x. key x = c) (insertionSort_inner (by_key key) data a j)
    = filter (\<lambda>x. key x = c) data"
  using assms
proof (induction j arbitrary: data)
  case 0
  then show ?case by (subst insertionSort_inner.simps) simp
next
  case (Suc j)
  show ?case
  proof (cases "Suc j > a \<and> key (data ! Suc j) < key (data ! j)")
    case True
    define d where "d = Swap data (Suc j) j"
    have "insertionSort_inner (by_key key) data a (Suc j) = insertionSort_inner (by_key key) d a j"
      using True unfolding d_def by (subst insertionSort_inner.simps) simp
    moreover have "filter (\<lambda>x. key x = c) (insertionSort_inner (by_key key) d a j)
        = filter (\<lambda>x. key x = c) d"
      using Suc.prems by (intro Suc.IH) (simp add: d_def)
    moreover have "filter (\<lambda>x. key x = c) d = filter (\<lambda>x. key x = c) data"
      unfolding d_def using True Suc.prems by (intro filter_Swap_adjacent) auto
    ultimately show ?thesis by simp
  next
    case False
    then have "insertionSort_inner (by_key key) data a (Suc j) = data"
      by (subst insertionSort_inner.simps) auto
    then show ?thesis by simp
  qed
qed

lemma insertionSort_inner_length:
  "j < length data \<Longrightarrow> length (insertionSort_inner lt data a j) = length data"
proof (induction j arbitrary: data)
  case 0
  then show ?case by (subst insertionSort_inner.simps) simp
next
  case (Suc j)
  show ?case
  proof (cases "Suc j > a \<and> Less lt data (Suc j) j")
    case True
    then have "insertionSort_inner lt data a (Suc j) = insertionSort_inner lt (Swap data (Suc j) j) a j"
      by (subst insertionSort_inner.simps) simp
    then show ?thesis using Suc.IH[of "Swap data (Suc j) j"] Suc.prems by simp
  next
    case False
    then have "insertionSort_inner lt data a (Suc j) = data"
      by (subst insertionSort_inner.simps) auto
    then show ?thesis by simp
  qed
qed

lemma insertionSort_outer_stable:
  assumes "b \<le> length data"
  shows "filter (\<lambda>x. key x = c) (insertionSort_outer (by_key key) data a b i)
    = filter (\<lambda>x. key x = c) data"
  using assms
proof (induction "by_key key" data a b i rule: insertionSort_outer.induct)
  case (1 data a b i)
  show ?case
  proof (cases "i < b")
    case True
    define d where "d = insertionSort_inner (by_key key) data a i"
    have i: "i < length data" using True "1.prems" by simp
    have "insertionSort_outer (by_key key) data a b i = insertionSort_outer (by_key key) d a b (i + 1)"
      using True unfolding d_def by (subst insertionSort_outer.simps) simp
    moreover have "filter (\<lambda>x. key x = c) (insertionSort_outer (by_key key) d a b (i + 1))
        = filter (\<lambda>x. key x = c) d"
      unfolding d_def using True "1.prems" i by (intro "1.hyps") (simp_all add: insertionSort_inner_length)
    moreover have "filter (\<lambda>x. key x = c) d = filter (\<lambda>x. key x = c) data"
      unfolding d_def using i by (rule insertionSort_inner_stable)
    ultimately show ?thesis by simp
  next
    case False
    then have "insertionSort_outer (by_key key) data a b i = data"
      by (subst insertionSort_outer.simps) simp
    then show ?thesis by simp
  qed
qed

lemma sort_Slice_short_stable:
  assumes "length x \<le> 12"
  shows "filter (\<lambda>y. key y = c) (sort_Slice (by_key key) x) = filter (\<lambda>y. key y = c) x"
proof -
  have eq: "sort_Slice (by_key key) x = insertionSort_outer (by_key key) x 0 (length x) (0 + 1)"
    using assms
    by (simp add: sort_Slice_def pdqsort_func_def Let_def maxInsertion_def insertionSort_func_def
        pdqsort_loop.simps[of _ x])
  show ?thesis
    unfolding eq by (rule insertionSort_outer_stable) simp
qed

text \<open>
  Claim C3, as amended. \<open>SortByAge\<close> and \<open>SortByAgeDesc\<close> rearrange the repositories so
  that the times of last update ascend (oldest first), respectively descend (newest
  first), for every input list. The sort is \<open>sort.Slice\<close>, which is not stable: only for
  a list of at most 12 repositories (sorted by insertion) do the repositories of equal
  time keep their input order; in a longer list they may change places.
\<close>

theorem SortByAge_sorts:
  "mset (SortByAge repos) = mset repos
   \<and> sorted (map LastUpdated (SortByAge repos))
   \<and> mset (SortByAgeDesc repos) = mset repos
   \<and> sorted_wrt (\<lambda>t u. t \<ge> u) (map LastUpdated (SortByAgeDesc repos))
   \<and> (length repos \<le> 12 \<longrightarrow>
        (\<forall>t. filter (\<lambda>r. LastUpdated r = t) (SortByAge repos)
               = filter (\<lambda>r. LastUpdated r = t) repos
           \<and> filter (\<lambda>r. LastUpdated r = t) (SortByAgeDesc repos)
               = filter (\<lambda>r. LastUpdated r = t) repos))"
proof -
  have "sorted (map (\<lambda>r. - LastUpdated r) (SortByAgeDesc repos))"
    unfolding SortByAgeDesc_by_key using sort_Slice_correct by blast
  then have desc: "sorted_wrt (\<lambda>t u. t \<ge> u) (map LastUpdated (SortByAgeDesc repos))"
    by (simp add: sorted_wrt_map)
  have st: "filter (\<lambda>r. LastUpdated r = t) (SortByAge repos) = filter (\<lambda>r. LastUpdated r = t) repos"
    if "length repos \<le> 12" for t
    unfolding SortByAge_by_key by (rule sort_Slice_short_stable[OF that])
  have std: "filter (\<lambda>r. LastUpdated r = t) (SortByAgeDesc repos) = filter (\<lambda>r. LastUpdated r = t) repos"
    if "length repos \<le> 12" for t
  proof -
    have "(\<lambda>r. LastUpdated r = t) = (\<lambda>r. - LastUpdated r = - t)" by auto
    then show ?thesis
      unfolding SortByAgeDesc_by_key
      using sort_Slice_short_stable[OF that, of "\<lambda>r. - LastUpdated r" "- t"] by simp
  qed
  show ?thesis
    using sort_Slice_correct[of LastUpdated repos] sort_Slice_correct[of "\<lambda>r. - LastUpdated r" repos]
      desc st std
    by (simp add: SortByAge_by_key SortByAgeDesc_by_key)
qed

theorem SortByAge_sorts_witness:
  "length (take 12 tie_repos) \<le> 12
   \<and> mset (SortByAge (take 12 tie_repos)) = mset (take 12 tie_repos)
   \<and> sorted (map LastUpdated (SortByAge (take 12 tie_repos)))
   \<and> filter (\<lambda>r. LastUpdated r = scenario_now) (SortByAge (take 12 tie_repos))
       = filter (\<lambda>r. LastUpdated r = scenario_now) (take 12 tie_repos)"
  using SortByAge_sorts[of "take 12 tie_repos"] by simp

text \<open>
  With thirteen repositories the repository at position 3 comes out before the one at
  position 0, although both were last updated at the same time.
\<close>

theorem SortByAge_unstable_counterexample:
  "map Name tie_repos =
     [''repo0'', ''repo1'', ''repo2'', ''repo3'', ''repo4'', ''repo5'', ''repo6'', ''repo7'', ''repo8'', ''repo9'', ''repo10'', ''repo11'', ''repo12'']
   \<and> LastUpdated (tie_repos ! 0) = LastUpdated (tie_repos ! 3)
   \<and> map Name (SortByAge tie_repos) =
     [''repo6'', ''repo3'', ''repo2'', ''repo0'', ''repo4'', ''repo5'', ''repo1'', ''repo7'', ''repo8'', ''repo9'', ''repo10'', ''repo11'', ''repo12'']"
  by code_simp

end
